theory Spec2Isabelle
  imports Complex_Main "HOL-Library.Sublist"
begin

section \<open>AsyncVideoWriter: a bounded producer/consumer frame pipeline\<close>

text \<open>
  The development embeds the class \<open>AsyncVideoWriter\<close> of \<open>arducam_thread_rec.py\<close>.
  The object's fields, the contents of its \<open>queue.Queue\<close>, the consumer threads it has
  spawned, the file at the target path and the lines printed by \<open>stop\<close> form one state
  record. The calling thread and the consumer threads are interleaved by an explicit
  schedule; every operation of \<open>queue.Queue\<close> is one atomic step, as its lock makes it.

  Frames are values of an arbitrary type \<open>'f\<close>; an item of the queue is \<open>Some f\<close> for
  a frame and \<open>None\<close> for the sentinel that \<open>stop\<close> enqueues, as in the source, where
  the sentinel is Python's \<open>None\<close>. The encoding parameters (\<open>fourcc\<close>, \<open>fps\<close>,
  \<open>frame_size\<close>) are only handed to \<open>cv2.VideoWriter\<close>, whose answer is an input of
  the model (\<open>open_outcome\<close>), so they are not fields of the record.

  Three things are taken from the surroundings of the class. One thread calls the
  methods, one call after the other, as the capture loop does. A submitted frame is not
  \<open>None\<close> (the capture loop submits what \<open>cap.read()\<close> returned with success). And
  \<open>cv2.VideoWriter.write\<close> returns: a consumer thread killed by an exception of the
  encoder is outside the model.
\<close>

subsection \<open>State\<close>

text \<open>
  A consumer thread runs \<open>_process_queue\<close>. It is either blocked in
  \<open>self.queue.get()\<close>, or holds the item it has just taken (before the test
  \<open>frame is None\<close>), or has left the loop.
\<close>

datatype 'f cthread = Waiting | Got "'f option" | Exited

text \<open>A line pair printed by \<open>stop\<close>: the file name, the size in MB, the dropped frames.\<close>

type_synonym report = "string \<times> rat \<times> int"

record 'f state =
  filename :: string
  maxsize :: int
  queue :: "'f option list"
  writer :: "string option"
  thread :: "nat option"
  is_recording :: bool
  dropped_frames :: int
  threads :: "'f cthread list"
  artifact :: "'f list option"
  reports :: "report list"

text \<open>
  \<open>queue\<close> lists the items oldest first and \<open>maxsize\<close> is the \<open>queue_size\<close> given to
  the constructor. \<open>writer\<close> is \<open>None\<close> or the opened \<open>cv2.VideoWriter\<close>, named by
  the path it writes. \<open>thread\<close> is \<open>None\<close> or the index, in the table \<open>threads\<close> of
  all consumer threads ever started, of the thread stored in \<open>self.thread\<close>.
  \<open>artifact\<close> is the file at \<open>filename\<close>: \<open>None\<close> when no file exists, otherwise the
  frames it holds. \<open>reports\<close> collects what \<open>stop\<close> prints.
\<close>

definition init :: "string \<Rightarrow> int \<Rightarrow> 'f list option \<Rightarrow> 'f state" where
  "init fname queue_size file =
     \<lparr>filename = fname, maxsize = queue_size, queue = [], writer = None, thread = None,
      is_recording = False, dropped_frames = 0, threads = [], artifact = file,
      reports = []\<rparr>"

subsection \<open>The queue\<close>

text \<open>
  \<open>queue.Queue(maxsize)\<close> is full when \<open>0 < maxsize \<le> qsize\<close>; with
  \<open>maxsize \<le> 0\<close> it is unbounded. \<open>put_nowait\<close> raises \<open>queue.Full\<close> on a full
  queue, \<open>put\<close> waits on a full queue, \<open>get\<close> waits on an empty one.
\<close>

definition full :: "'f state \<Rightarrow> bool" where
  "full s = (0 < maxsize s \<and> maxsize s \<le> int (length (queue s)))"

subsection \<open>start\<close>

text \<open>
  The answer of \<open>cv2.VideoWriter(...)\<close>: an opened writer, a writer that is not
  opened, or an exception. An opened writer has created (or truncated) the file at the
  target path. A failed attempt may have done so as well before it failed, or may have
  left the path as it was; which of the two is part of the answer. \<open>start\<close> itself
  does nothing to the file.
\<close>

datatype file_effect = Untouched | Created

datatype open_outcome = Opened | NotOpened file_effect | Raised file_effect

definition attempt :: "file_effect \<Rightarrow> 'f list option \<Rightarrow> 'f list option" where
  "attempt e file = (case e of Untouched \<Rightarrow> file | Created \<Rightarrow> Some [])"

definition start :: "open_outcome \<Rightarrow> 'f state \<Rightarrow> bool \<times> 'f state" where
  "start oc s =
     (case oc of
        Raised e \<Rightarrow> (False, s\<lparr>artifact := attempt e (artifact s)\<rparr>)
      | NotOpened e \<Rightarrow> (False, s\<lparr>writer := None, artifact := attempt e (artifact s)\<rparr>)
      | Opened \<Rightarrow>
          (True, s\<lparr>writer := Some (filename s), artifact := Some [],
                   is_recording := True, dropped_frames := 0,
                   thread := Some (length (threads s)),
                   threads := threads s @ [Waiting]\<rparr>))"

text \<open>The file that the call \<open>cv2.VideoWriter(...)\<close> leaves at the target path.\<close>

definition left_by :: "open_outcome \<Rightarrow> 'f list option \<Rightarrow> 'f list option" where
  "left_by oc file =
     (case oc of Opened \<Rightarrow> Some [] | NotOpened e \<Rightarrow> attempt e file | Raised e \<Rightarrow> attempt e file)"

subsection \<open>write\<close>

text \<open>The method \<open>write\<close>; the name \<open>write\<close> is a command of Isabelle.\<close>

definition write_frame :: "'f \<Rightarrow> 'f state \<Rightarrow> 'f state" where
  "write_frame frame s =
     (if \<not> is_recording s then s
      else if full s then s\<lparr>dropped_frames := dropped_frames s + 1\<rparr>
      else s\<lparr>queue := queue s @ [Some frame]\<rparr>)"

subsection \<open>stop\<close>

text \<open>
  \<open>stop\<close> waits twice, in \<open>self.queue.put(None)\<close> and in \<open>self.thread.join()\<close>, so it
  is cut in four pieces at these points. A piece that cannot run yet returns \<open>None\<close>.
  The program counter of the calling thread tells which piece is next.
\<close>

datatype pc = Ready | StopPut | StopJoin | StopFinish

definition stop_begin :: "'f state \<Rightarrow> pc \<times> 'f state" where
  "stop_begin s =
     (if thread s \<noteq> None then (StopPut, s\<lparr>is_recording := False\<rparr>)
      else (StopFinish, s\<lparr>is_recording := False\<rparr>))"

definition stop_put :: "'f state \<Rightarrow> 'f state option" where
  "stop_put s = (if full s then None else Some (s\<lparr>queue := queue s @ [None]\<rparr>))"

text \<open>
  \<open>stop_join\<close> is only entered with \<open>self.thread\<close> set; the branch for \<open>None\<close> is
  there to make the function total.
\<close>

definition stop_join :: "'f state \<Rightarrow> 'f state option" where
  "stop_join s =
     (case thread s of
        None \<Rightarrow> None
      | Some i \<Rightarrow>
          if i < length (threads s) \<and> threads s ! i = Exited
          then Some (s\<lparr>thread := None\<rparr>) else None)"

text \<open>
  \<open>os.path.getsize\<close> of a file holding the given frames is a capability of the
  encoder and the file system; it is the parameter \<open>getsize\<close>.
\<close>

definition size_mb :: "('f list \<Rightarrow> nat) \<Rightarrow> 'f state \<Rightarrow> rat" where
  "size_mb getsize s =
     (case artifact s of
        None \<Rightarrow> 0
      | Some fs \<Rightarrow> of_nat (getsize fs) / (1024 * 1024))"

definition stop_finish :: "('f list \<Rightarrow> nat) \<Rightarrow> 'f state \<Rightarrow> 'f state" where
  "stop_finish getsize s =
     (let s1 = (if writer s \<noteq> None then s\<lparr>writer := None\<rparr> else s)
      in s1\<lparr>reports := reports s1 @ [(filename s1, size_mb getsize s1, dropped_frames s1)]\<rparr>)"

subsection \<open>The consumer loop\<close>

text \<open>
  One step of thread \<open>i\<close> running \<open>_process_queue\<close>: take the oldest item, or handle
  the item held. \<open>None\<close> when the thread waits on an empty queue, has left the loop, or
  does not exist.
\<close>

definition process_queue_step :: "nat \<Rightarrow> 'f state \<Rightarrow> 'f state option" where
  "process_queue_step i s =
     (if i < length (threads s) then
        (case threads s ! i of
           Waiting \<Rightarrow>
             (case queue s of
                [] \<Rightarrow> None
              | x # q \<Rightarrow> Some (s\<lparr>queue := q, threads := (threads s)[i := Got x]\<rparr>))
         | Got None \<Rightarrow> Some (s\<lparr>threads := (threads s)[i := Exited]\<rparr>)
         | Got (Some frame) \<Rightarrow>
             Some ((if writer s \<noteq> None
                    then s\<lparr>artifact := map_option (\<lambda>w. w @ [frame]) (artifact s)\<rparr>
                    else s)\<lparr>threads := (threads s)[i := Waiting]\<rparr>)
         | Exited \<Rightarrow> None)
      else None)"

subsection \<open>Interleaving\<close>

text \<open>
  The calling thread runs a list of calls, one after the other. A configuration is its
  program counter, the calls still to make and the state. A schedule names, step by
  step, the thread that runs; a thread that is scheduled while it waits does nothing.
\<close>

datatype 'f call = is_Start: Start open_outcome | is_Write: Write 'f | is_Stop: Stop

type_synonym 'f config = "pc \<times> 'f call list \<times> 'f state"

datatype actor = Main | Consumer nat

fun main_step :: "('f list \<Rightarrow> nat) \<Rightarrow> 'f config \<Rightarrow> 'f config option" where
  "main_step getsize (Ready, [], s) = None"
| "main_step getsize (Ready, Start oc # cs, s) = Some (Ready, cs, snd (start oc s))"
| "main_step getsize (Ready, Write frame # cs, s) = Some (Ready, cs, write_frame frame s)"
| "main_step getsize (Ready, Stop # cs, s) =
     Some (fst (stop_begin s), cs, snd (stop_begin s))"
| "main_step getsize (StopPut, cs, s) =
     (case stop_put s of None \<Rightarrow> None | Some s' \<Rightarrow> Some (StopJoin, cs, s'))"
| "main_step getsize (StopJoin, cs, s) =
     (case stop_join s of None \<Rightarrow> None | Some s' \<Rightarrow> Some (StopFinish, cs, s'))"
| "main_step getsize (StopFinish, cs, s) = Some (Ready, cs, stop_finish getsize s)"

fun step :: "('f list \<Rightarrow> nat) \<Rightarrow> actor \<Rightarrow> 'f config \<Rightarrow> 'f config option" where
  "step getsize Main c = main_step getsize c"
| "step getsize (Consumer i) (p, cs, s) =
     (case process_queue_step i s of None \<Rightarrow> None | Some s' \<Rightarrow> Some (p, cs, s'))"

fun exec :: "('f list \<Rightarrow> nat) \<Rightarrow> actor list \<Rightarrow> 'f config \<Rightarrow> 'f config" where
  "exec getsize [] c = c"
| "exec getsize (a # as) c =
     exec getsize as (case step getsize a c of None \<Rightarrow> c | Some c' \<Rightarrow> c')"

text \<open>The parts of a configuration, and the calling thread having returned from its last call.\<close>

definition pc_of :: "'f config \<Rightarrow> pc" where
  "pc_of c = fst c"

definition todo_of :: "'f config \<Rightarrow> 'f call list" where
  "todo_of c = fst (snd c)"

definition st_of :: "'f config \<Rightarrow> 'f state" where
  "st_of c = snd (snd c)"

definition finished :: "'f config \<Rightarrow> bool" where
  "finished c = (pc_of c = Ready \<and> todo_of c = [])"

text \<open>The writer right after a successful \<open>start\<close> on a fresh object.\<close>

definition active :: "string \<Rightarrow> int \<Rightarrow> 'f list option \<Rightarrow> 'f state" where
  "active fname queue_size file = snd (start Opened (init fname queue_size file))"

text \<open>The frames written to the file, the frames among queue items, the frame a thread holds.\<close>

definition written :: "'f state \<Rightarrow> 'f list" where
  "written s = (case artifact s of None \<Rightarrow> [] | Some w \<Rightarrow> w)"

fun frames_in :: "'f option list \<Rightarrow> 'f list" where
  "frames_in [] = []"
| "frames_in (None # q) = frames_in q"
| "frames_in (Some f # q) = f # frames_in q"

fun held :: "'f cthread \<Rightarrow> 'f list" where
  "held (Got (Some f)) = [f]"
| "held t = []"

text \<open>The frames that a list of calls submits before its first \<open>Stop\<close>, and in all.\<close>

fun submitted :: "'f call list \<Rightarrow> 'f list" where
  "submitted [] = []"
| "submitted (Write f # cs) = f # submitted cs"
| "submitted (Stop # cs) = []"
| "submitted (Start oc # cs) = submitted cs"

text \<open>
  Progress is measured by the calls and pieces of \<open>stop\<close> still to run, the items
  still in the queue and the threads that hold an item.
\<close>

fun busy :: "'f cthread list \<Rightarrow> nat" where
  "busy [] = 0"
| "busy (Got x # ts) = Suc (busy ts)"
| "busy (t # ts) = busy ts"

fun rank :: "pc \<Rightarrow> nat" where
  "rank Ready = 0"
| "rank StopPut = 5"
| "rank StopJoin = 2"
| "rank StopFinish = 1"

definition work :: "'f config \<Rightarrow> nat" where
  "work c = 7 * length (todo_of c) + rank (pc_of c) + 2 * length (queue (st_of c))
              + busy (threads (st_of c))"

subsection \<open>Invariants\<close>

text \<open>The queue of a bounded writer never holds more than \<open>maxsize\<close> items.\<close>

definition qinv :: "'f config \<Rightarrow> bool" where
  "qinv c = (maxsize (st_of c) \<le> 0 \<or> int (length (queue (st_of c))) \<le> maxsize (st_of c))"

text \<open>A consumer thread that has not taken the sentinel.\<close>

fun alive :: "'f cthread \<Rightarrow> bool" where
  "alive Waiting = True"
| "alive (Got (Some f)) = True"
| "alive (Got None) = False"
| "alive Exited = False"

text \<open>
  The invariant of one recording session: the writer has been started once, with
  success, and \<open>start\<close> is not called again. \<open>F\<close> is the list of the frames
  submitted before the first \<open>stop\<close>. The frames in the file, in the hands of the
  thread, in the queue and still to be submitted form, in this order, a subsequence of
  \<open>F\<close>, and the frames missing from it are the dropped ones.
\<close>

definition pipeline :: "'f call list \<Rightarrow> 'f state \<Rightarrow> 'f list" where
  "pipeline cs s =
     written s @ concat (map held (threads s)) @ frames_in (queue s)
       @ (if is_recording s then submitted cs else [])"

definition phase :: "pc \<Rightarrow> 'f state \<Rightarrow> 'f cthread \<Rightarrow> bool" where
  "phase p s t =
     (case p of
        Ready \<Rightarrow>
          if is_recording s
          then thread s = Some 0 \<and> writer s \<noteq> None \<and> alive t \<and> None \<notin> set (queue s)
          else thread s = None \<and> writer s = None \<and> t = Exited \<and> queue s = []
      | StopPut \<Rightarrow>
          \<not> is_recording s \<and> thread s = Some 0 \<and> writer s \<noteq> None \<and> alive t
            \<and> None \<notin> set (queue s)
      | StopJoin \<Rightarrow>
          \<not> is_recording s \<and> thread s = Some 0 \<and> writer s \<noteq> None
            \<and> (if alive t then \<exists>q. queue s = map Some q @ [None] else queue s = [])
      | StopFinish \<Rightarrow>
          \<not> is_recording s \<and> thread s = None \<and> t = Exited \<and> queue s = [])"

definition sinv :: "'f list \<Rightarrow> 'f config \<Rightarrow> bool" where
  "sinv F c =
     (list_all (\<lambda>x. \<not> is_Start x) (todo_of c) \<and>
      (\<exists>t. threads (st_of c) = [t] \<and> phase (pc_of c) (st_of c) t) \<and>
      artifact (st_of c) \<noteq> None \<and>
      subseq (pipeline (todo_of c) (st_of c)) F \<and>
      0 \<le> dropped_frames (st_of c) \<and>
      int (length (pipeline (todo_of c) (st_of c))) + dropped_frames (st_of c) = int (length F))"

text \<open>
  While the writer records, the calling thread is between two calls and the \<open>stop\<close>
  that is followed by the calls \<open>post\<close> is still to come.
\<close>

definition rec_inv :: "'f call list \<Rightarrow> 'f config \<Rightarrow> bool" where
  "rec_inv post c =
     (list_all (\<lambda>x. \<not> is_Start x) (todo_of c) \<and>
      (is_recording (st_of c) \<longrightarrow>
         pc_of c = Ready \<and> (\<exists>pre. todo_of c = pre @ Stop # post)))"

text \<open>
  The invariant of a \<open>stop\<close> that is invoked again on a writer whose first \<open>stop\<close> was
  abandoned while it waited (an interrupt in \<open>put\<close> or in \<open>join\<close>): \<open>self.thread\<close> is
  still set, and \<open>m\<close> sentinels (none or one) were enqueued by the abandoned call.
  \<open>markers k t q\<close> tells where \<open>k\<close> sentinels are: at the end of the queue, behind
  the frames, while the thread has taken none; all but the first in the queue once the
  thread has taken the first. \<open>accepted\<close> lists the frames in the file, in the hands of
  the threads and in the queue.
\<close>

definition markers :: "nat \<Rightarrow> 'f cthread \<Rightarrow> 'f option list \<Rightarrow> bool" where
  "markers k t q =
     (if alive t then \<exists>q0. q = map Some q0 @ replicate k None
      else 0 < k \<and> q = replicate (k - 1) None)"

definition accepted :: "'f state \<Rightarrow> 'f list" where
  "accepted s = written s @ concat (map held (threads s)) @ frames_in (queue s)"

definition rphase :: "nat \<Rightarrow> pc \<Rightarrow> 'f call list \<Rightarrow> 'f state \<Rightarrow> 'f cthread \<Rightarrow> bool" where
  "rphase m p cs s t =
     (case p of
        Ready \<Rightarrow>
          if cs = [Stop]
          then thread s = Some 0 \<and> writer s \<noteq> None \<and> markers m t (queue s)
          else cs = [] \<and> thread s = None \<and> writer s = None \<and> t = Exited
                 \<and> queue s = replicate m None
      | StopPut \<Rightarrow>
          cs = [] \<and> thread s = Some 0 \<and> writer s \<noteq> None \<and> markers m t (queue s)
      | StopJoin \<Rightarrow>
          cs = [] \<and> thread s = Some 0 \<and> writer s \<noteq> None \<and> markers (Suc m) t (queue s)
      | StopFinish \<Rightarrow>
          cs = [] \<and> thread s = None \<and> t = Exited \<and> queue s = replicate m None)"

definition rinv :: "('f list \<Rightarrow> nat) \<Rightarrow> nat \<Rightarrow> 'f state \<Rightarrow> 'f config \<Rightarrow> bool" where
  "rinv getsize m s0 c =
     ((\<exists>t. threads (st_of c) = [t] \<and> rphase m (pc_of c) (todo_of c) (st_of c) t) \<and>
      \<not> is_recording (st_of c) \<and>
      artifact (st_of c) \<noteq> None \<and>
      accepted (st_of c) = accepted s0 \<and>
      filename (st_of c) = filename s0 \<and>
      dropped_frames (st_of c) = dropped_frames s0 \<and>
      reports (st_of c) =
        (if finished c
         then reports s0 @ [(filename s0, size_mb getsize (st_of c), dropped_frames s0)]
         else reports s0))"

section \<open>Properties\<close>

subsection \<open>Basic facts and the session invariant\<close>

lemmas op_defs = start_def write_frame_def stop_begin_def stop_put_def stop_join_def
  stop_finish_def process_queue_step_def full_def size_mb_def init_def active_def

lemmas cfg_defs = pc_of_def todo_of_def st_of_def

lemma exec_append: "exec gs (xs @ ys) c = exec gs ys (exec gs xs c)"
  by (induction xs arbitrary: c) simp_all

lemma exec_invariant:
  assumes "\<And>a c c'. P c \<Longrightarrow> step gs a c = Some c' \<Longrightarrow> P c'" and "P c"
  shows "P (exec gs sch c)"
  using assms(2)
proof (induction sch arbitrary: c)
  case Nil
  then show ?case by simp
next
  case (Cons a sch)
  show ?case
  proof (cases "step gs a c")
    case None
    with Cons show ?thesis by simp
  next
    case (Some c')
    with Cons assms(1) show ?thesis by simp
  qed
qed

lemma frames_in_append: "frames_in (q @ r) = frames_in q @ frames_in r"
  by (induction q rule: frames_in.induct) simp_all

lemma length_frames_in: "None \<notin> set q \<Longrightarrow> length (frames_in q) = length q"
  by (induction q rule: frames_in.induct) simp_all

lemma subseq_drop_mid: "subseq (xs @ ys) (xs @ y # ys)"
  by (induction xs) (simp_all add: subseq_Cons')

lemma subseq_drop_mid4: "subseq (a @ b @ c @ d) (a @ b @ c @ y # d)"
  using subseq_drop_mid [of "a @ b @ c" d y] by simp

lemma pipeline_write_idle:
  "\<not> is_recording s \<Longrightarrow> pipeline cs (write_frame f s) = pipeline (Write f # cs) s"
  by (simp add: pipeline_def write_frame_def)

lemma pipeline_write_accept:
  "is_recording s \<Longrightarrow> \<not> full s \<Longrightarrow> pipeline cs (write_frame f s) = pipeline (Write f # cs) s"
  by (simp add: pipeline_def write_frame_def written_def frames_in_append)

lemma pipeline_write_drop:
  "is_recording s \<Longrightarrow> full s \<Longrightarrow>
     subseq (pipeline cs (write_frame f s)) (pipeline (Write f # cs) s) \<and>
     length (pipeline (Write f # cs) s) = Suc (length (pipeline cs (write_frame f s)))"
  by (simp add: pipeline_def write_frame_def written_def subseq_drop_mid4)

lemma sinvI:
  assumes "list_all (\<lambda>x. \<not> is_Start x) cs" "threads s = [t]" "phase p s t" "artifact s \<noteq> None"
    "subseq (pipeline cs s) F" "0 \<le> dropped_frames s"
    "int (length (pipeline cs s)) + dropped_frames s = int (length F)"
  shows "sinv F (p, cs, s)"
  using assms by (simp add: sinv_def cfg_defs)

lemma sinvE:
  assumes "sinv F (p, cs, s)"
  obtains t where "list_all (\<lambda>x. \<not> is_Start x) cs" "threads s = [t]" "phase p s t"
    "artifact s \<noteq> None" "subseq (pipeline cs s) F" "0 \<le> dropped_frames s"
    "int (length (pipeline cs s)) + dropped_frames s = int (length F)"
  using assms by (auto simp: sinv_def cfg_defs)

lemma sinv_write:
  assumes "sinv F (Ready, Write f # cs, s)"
  shows "sinv F (Ready, cs, write_frame f s)"
proof -
  from assms obtain t where t: "threads s = [t]" "phase Ready s t"
    and sf: "list_all (\<lambda>x. \<not> is_Start x) (Write f # cs)"
    and ar0: "artifact s \<noteq> None"
    and sub: "subseq (pipeline (Write f # cs) s) F"
    and nn: "0 \<le> dropped_frames s"
    and len: "int (length (pipeline (Write f # cs) s)) + dropped_frames s = int (length F)"
    by (rule sinvE)
  have ph: "phase Ready (write_frame f s) t"
    using t(2) by (auto simp: phase_def write_frame_def)
  have th: "threads (write_frame f s) = [t]"
    using t(1) by (simp add: write_frame_def)
  have ar: "artifact (write_frame f s) \<noteq> None"
    using ar0 by (simp add: write_frame_def)
  consider (idle) "\<not> is_recording s" | (acc) "is_recording s" "\<not> full s"
    | (drop) "is_recording s" "full s" by blast
  then have "subseq (pipeline cs (write_frame f s)) F \<and> 0 \<le> dropped_frames (write_frame f s) \<and>
    int (length (pipeline cs (write_frame f s))) + dropped_frames (write_frame f s) = int (length F)"
  proof cases
    case idle
    then show ?thesis using sub len nn
      by (simp add: pipeline_write_idle) (simp add: write_frame_def)
  next
    case acc
    then show ?thesis using sub len nn
      by (simp add: pipeline_write_accept) (simp add: write_frame_def)
  next
    case drop
    from pipeline_write_drop [OF drop, of cs f] sub
    have "subseq (pipeline cs (write_frame f s)) F"
      using subseq_order.order_trans by blast
    moreover have "dropped_frames (write_frame f s) = dropped_frames s + 1"
      using drop by (simp add: write_frame_def)
    ultimately show ?thesis
      using pipeline_write_drop [OF drop, of cs f] len nn by simp
  qed
  then show ?thesis
    using sf ph th ar by (intro sinvI [where t = t]) simp_all
qed

lemma sinv_stop_begin:
  assumes "sinv F (Ready, Stop # cs, s)"
  shows "sinv F (fst (stop_begin s), cs, snd (stop_begin s))"
proof -
  from assms obtain t where t: "threads s = [t]" "phase Ready s t"
    and sf: "list_all (\<lambda>x. \<not> is_Start x) (Stop # cs)"
    and ar0: "artifact s \<noteq> None"
    and sub: "subseq (pipeline (Stop # cs) s) F"
    and nn: "0 \<le> dropped_frames s"
    and len: "int (length (pipeline (Stop # cs) s)) + dropped_frames s = int (length F)"
    by (rule sinvE)
  have pl: "pipeline cs (snd (stop_begin s)) = pipeline (Stop # cs) s"
    by (simp add: pipeline_def stop_begin_def written_def)
  have ph: "phase (fst (stop_begin s)) (snd (stop_begin s)) t"
    using t(2) by (auto simp: phase_def stop_begin_def split: if_splits)
  show ?thesis
    using sf t(1) ar0 sub nn len ph
    by (intro sinvI [where t = t]) (simp_all add: pl, simp_all add: stop_begin_def)
qed

lemma sinv_stop_put:
  assumes "sinv F (StopPut, cs, s)" and "stop_put s = Some s'"
  shows "sinv F (StopJoin, cs, s')"
proof -
  from assms(1) obtain t where t: "threads s = [t]" "phase StopPut s t"
    and sf: "list_all (\<lambda>x. \<not> is_Start x) cs"
    and ar0: "artifact s \<noteq> None"
    and sub: "subseq (pipeline cs s) F"
    and nn: "0 \<le> dropped_frames s"
    and len: "int (length (pipeline cs s)) + dropped_frames s = int (length F)"
    by (rule sinvE)
  from assms(2) have s': "s' = s\<lparr>queue := queue s @ [None]\<rparr>"
    by (simp add: stop_put_def split: if_splits)
  have pl: "pipeline cs s' = pipeline cs s"
    by (simp add: s' pipeline_def written_def frames_in_append)
  have "\<exists>q. queue s = map Some q" if "None \<notin> set (queue s)"
    using that by (induction "queue s" arbitrary: s) (metis ex_map_conv not_Some_eq)+
  then have ph: "phase StopJoin s' t"
    using t(2) by (auto simp: phase_def s')
  show ?thesis
    using sf t(1) ar0 sub nn len ph
    by (intro sinvI [where t = t]) (simp_all add: pl, simp_all add: s')
qed

lemma sinv_stop_join:
  assumes "sinv F (StopJoin, cs, s)" and "stop_join s = Some s'"
  shows "sinv F (StopFinish, cs, s')"
proof -
  from assms(1) obtain t where t: "threads s = [t]" "phase StopJoin s t"
    and sf: "list_all (\<lambda>x. \<not> is_Start x) cs"
    and ar0: "artifact s \<noteq> None"
    and sub: "subseq (pipeline cs s) F"
    and nn: "0 \<le> dropped_frames s"
    and len: "int (length (pipeline cs s)) + dropped_frames s = int (length F)"
    by (rule sinvE)
  from assms(2) t have s': "s' = s\<lparr>thread := None\<rparr>" and ex: "t = Exited"
    by (auto simp: stop_join_def phase_def split: if_splits option.splits)
  have pl: "pipeline cs s' = pipeline cs s"
    by (simp add: s' pipeline_def written_def)
  have ph: "phase StopFinish s' t"
    using t(2) ex by (auto simp: phase_def s')
  show ?thesis
    using sf t(1) ar0 sub nn len ph
    by (intro sinvI [where t = t]) (simp_all add: pl, simp_all add: s')
qed

lemma sinv_stop_finish:
  assumes "sinv F (StopFinish, cs, s)"
  shows "sinv F (Ready, cs, stop_finish gs s)"
proof -
  from assms(1) obtain t where t: "threads s = [t]" "phase StopFinish s t"
    and sf: "list_all (\<lambda>x. \<not> is_Start x) cs"
    and ar0: "artifact s \<noteq> None"
    and sub: "subseq (pipeline cs s) F"
    and nn: "0 \<le> dropped_frames s"
    and len: "int (length (pipeline cs s)) + dropped_frames s = int (length F)"
    by (rule sinvE)
  have pl: "pipeline cs (stop_finish gs s) = pipeline cs s"
    by (simp add: stop_finish_def pipeline_def written_def Let_def)
  have ph: "phase Ready (stop_finish gs s) t"
    using t(2) by (auto simp: phase_def stop_finish_def Let_def)
  show ?thesis
    using sf t(1) ar0 sub nn len ph
    by (intro sinvI [where t = t]) (simp_all add: pl, simp_all add: stop_finish_def Let_def)
qed

lemma sinv_main:
  assumes "sinv F (p, cs, s)" and "main_step gs (p, cs, s) = Some c'"
  shows "sinv F c'"
proof (cases p)
  case Ready
  show ?thesis
  proof (cases cs)
    case Nil
    with Ready assms(2) show ?thesis by simp
  next
    case (Cons x cs')
    show ?thesis
    proof (cases x)
      case (Start oc)
      with Ready Cons assms(1) show ?thesis by (simp add: sinv_def cfg_defs)
    next
      case (Write f)
      with Ready Cons assms sinv_write [of F f cs' s] show ?thesis by simp
    next
      case Stop
      with Ready Cons assms sinv_stop_begin [of F cs' s] show ?thesis by simp
    qed
  qed
next
  case StopPut
  with assms sinv_stop_put [of F cs s] show ?thesis
    by (auto split: option.splits)
next
  case StopJoin
  with assms sinv_stop_join [of F cs s] show ?thesis
    by (auto split: option.splits)
next
  case StopFinish
  with assms sinv_stop_finish [of F cs s gs] show ?thesis by auto
qed

lemma phase_get:
  assumes "phase p s Waiting" "queue s = x # q"
  shows "phase p (s\<lparr>queue := q, threads := ts\<rparr>) (Got x)"
proof (cases p)
  case StopJoin
  with assms obtain q0 where q0: "x # q = map Some q0 @ [None]"
    by (auto simp: phase_def)
  show ?thesis
  proof (cases q0)
    case Nil
    with q0 StopJoin assms show ?thesis by (simp add: phase_def)
  next
    case (Cons f q1)
    with q0 StopJoin assms show ?thesis by (auto simp: phase_def)
  qed
next
  case Ready
  with assms show ?thesis by (cases x) (auto simp: phase_def split: if_splits)
next
  case StopPut
  with assms show ?thesis by (cases x) (auto simp: phase_def split: if_splits)
next
  case StopFinish
  with assms show ?thesis by (auto simp: phase_def split: if_splits)
qed

lemma phase_exit:
  assumes "phase p s (Got None)"
  shows "phase p (s\<lparr>threads := ts\<rparr>) Exited"
  using assms by (cases p) (auto simp: phase_def split: if_splits)

lemma phase_process:
  assumes "phase p s (Got (Some f))"
  shows "writer s \<noteq> None \<and> phase p (s\<lparr>artifact := a, threads := ts\<rparr>) Waiting"
  using assms by (cases p) (auto simp: phase_def split: if_splits)

lemma sinv_consumer:
  assumes "sinv F (p, cs, s)" and "process_queue_step i s = Some s'"
  shows "sinv F (p, cs, s')"
proof -
  from assms(1) obtain t where t: "threads s = [t]" "phase p s t"
    and sf: "list_all (\<lambda>x. \<not> is_Start x) cs"
    and ar0: "artifact s \<noteq> None"
    and sub: "subseq (pipeline cs s) F"
    and nn: "0 \<le> dropped_frames s"
    and len: "int (length (pipeline cs s)) + dropped_frames s = int (length F)"
    by (rule sinvE)
  from assms(2) t(1) have i: "i = 0"
    by (simp add: process_queue_step_def split: if_splits)
  show ?thesis
  proof (cases t)
    case Waiting
    with assms(2) t(1) i obtain x q where q: "queue s = x # q"
      and s': "s' = s\<lparr>queue := q, threads := [Got x]\<rparr>"
      by (auto simp: process_queue_step_def split: list.splits)
    have pl: "pipeline cs s' = pipeline cs s"
      using t(1) Waiting q by (cases x) (simp_all add: s' pipeline_def written_def)
    have ph: "phase p s' (Got x)"
      unfolding s' using t(2) q Waiting by (simp add: phase_get)
    show ?thesis
      using sf ar0 sub nn len ph
      by (intro sinvI [where t = "Got x"]) (simp_all add: pl, simp_all add: s')
  next
    case (Got x)
    show ?thesis
    proof (cases x)
      case None
      with assms(2) t(1) i Got have s': "s' = s\<lparr>threads := [Exited]\<rparr>"
        by (simp add: process_queue_step_def)
      have pl: "pipeline cs s' = pipeline cs s"
        using t(1) Got None by (simp add: s' pipeline_def written_def)
      have ph: "phase p s' Exited"
        unfolding s' using t(2) Got None by (simp add: phase_exit)
      show ?thesis
        using sf ar0 sub nn len ph
        by (intro sinvI [where t = Exited]) (simp_all add: pl, simp_all add: s')
    next
      case (Some f)
      from t(2) Got Some have "phase p s (Got (Some f))" by simp
      from phase_process [OF this] have w: "writer s \<noteq> None"
        and ph: "phase p (s\<lparr>artifact := map_option (\<lambda>w. w @ [f]) (artifact s), threads := [Waiting]\<rparr>) Waiting"
        by blast+
      with assms(2) t(1) i Got Some
      have s': "s' = s\<lparr>artifact := map_option (\<lambda>w. w @ [f]) (artifact s), threads := [Waiting]\<rparr>"
        by (simp add: process_queue_step_def)
      have pl: "pipeline cs s' = pipeline cs s"
        using t(1) Got Some ar0 by (auto simp: s' pipeline_def written_def)
      show ?thesis
        using sf ar0 sub nn len ph [folded s']
        by (intro sinvI [where t = Waiting]) (simp_all add: pl, auto simp: s')
    qed
  next
    case Exited
    with assms(2) t(1) i show ?thesis
      by (simp add: process_queue_step_def)
  qed
qed

lemma sinv_step:
  assumes "sinv F c" and "step gs a c = Some c'"
  shows "sinv F c'"
proof -
  obtain p cs s where c: "c = (p, cs, s)"
    by (cases c) auto
  show ?thesis
  proof (cases a)
    case Main
    with assms c show ?thesis using sinv_main [of F p cs s gs c'] by simp
  next
    case (Consumer i)
    with assms c show ?thesis
      using sinv_consumer [of F p cs s i] by (auto split: option.splits)
  qed
qed

lemma sinv_exec: "sinv F c \<Longrightarrow> sinv F (exec gs sch c)"
  using exec_invariant [where P = "sinv F"] sinv_step by blast

lemma sinv_active:
  assumes "list_all (\<lambda>x. \<not> is_Start x) rest"
  shows "sinv (submitted rest) (Ready, rest, active fn N a)"
  using assms
  by (intro sinvI [where t = Waiting])
     (simp_all add: active_def start_def init_def phase_def pipeline_def written_def)

subsection \<open>Progress\<close>

lemma busy_update:
  "i < length ts \<Longrightarrow>
     busy (ts[i := t]) + busy [ts ! i] = busy ts + busy [t]"
proof (induction ts arbitrary: i)
  case Nil
  then show ?case by simp
next
  case (Cons u ts)
  show ?case
  proof (cases i)
    case 0
    then show ?thesis by (cases u; cases t) simp_all
  next
    case (Suc j)
    with Cons.prems have "j < length ts" by simp
    from Cons.IH [OF this] Suc show ?thesis by (cases u) simp_all
  qed
qed

lemma busy_append: "busy (ts @ us) = busy ts + busy us"
  by (induction ts rule: busy.induct) simp_all

lemma work_consumer:
  assumes "process_queue_step i s = Some s'"
  shows "2 * length (queue s') + busy (threads s') < 2 * length (queue s) + busy (threads s)"
proof -
  from assms have i: "i < length (threads s)"
    by (simp add: process_queue_step_def split: if_splits)
  show ?thesis
  proof (cases "threads s ! i")
    case Waiting
    with assms i obtain x q where "queue s = x # q"
      and s': "s' = s\<lparr>queue := q, threads := (threads s)[i := Got x]\<rparr>"
      by (auto simp: process_queue_step_def split: list.splits)
    with busy_update [OF i, of "Got x"] Waiting show ?thesis by simp
  next
    case (Got x)
    show ?thesis
    proof (cases x)
      case None
      with Got assms i have "s' = s\<lparr>threads := (threads s)[i := Exited]\<rparr>"
        by (simp add: process_queue_step_def)
      with busy_update [OF i, of Exited] Got show ?thesis by simp
    next
      case (Some f)
      with Got assms i have "queue s' = queue s" "threads s' = (threads s)[i := Waiting]"
        by (auto simp: process_queue_step_def)
      with busy_update [OF i, of Waiting] Got show ?thesis by simp
    qed
  next
    case Exited
    with assms i show ?thesis by (simp add: process_queue_step_def)
  qed
qed

lemma work_main:
  assumes "main_step gs (p, cs, s) = Some c'"
  shows "work c' < work (p, cs, s)"
proof (cases p)
  case Ready
  show ?thesis
  proof (cases cs)
    case Nil
    with Ready assms show ?thesis by simp
  next
    case (Cons x cs')
    with Ready assms show ?thesis
      by (cases x)
         (auto simp: work_def cfg_defs start_def write_frame_def stop_begin_def busy_append
            split: open_outcome.splits)
  qed
next
  case StopPut
  with assms show ?thesis
    by (auto simp: work_def cfg_defs stop_put_def split: if_splits)
next
  case StopJoin
  with assms show ?thesis
    by (auto simp: work_def cfg_defs stop_join_def split: if_splits option.splits)
next
  case StopFinish
  with assms show ?thesis
    by (auto simp: work_def cfg_defs stop_finish_def Let_def)
qed

lemma work_step:
  assumes "step gs a c = Some c'"
  shows "work c' < work c"
proof -
  obtain p cs s where c: "c = (p, cs, s)"
    by (cases c) auto
  show ?thesis
  proof (cases a)
    case Main
    with assms c work_main [of gs p cs s c'] show ?thesis by simp
  next
    case (Consumer i)
    with assms c obtain s' where "process_queue_step i s = Some s'" "c' = (p, cs, s')"
      by (auto split: option.splits)
    with work_consumer [of i s s'] c show ?thesis
      by (simp add: work_def cfg_defs)
  qed
qed

lemma work_exec: "work (exec gs sch c) \<le> work c"
proof (induction sch arbitrary: c)
  case Nil
  then show ?case by simp
next
  case (Cons a sch)
  show ?case
  proof (cases "step gs a c")
    case None
    with Cons show ?thesis by simp
  next
    case (Some c')
    with Cons [of c'] work_step [of gs a c c'] show ?thesis by simp
  qed
qed

lemma finished_step: "finished c \<Longrightarrow> step gs a c = Some c' \<Longrightarrow> finished c'"
  by (cases c; cases a) (auto simp: finished_def cfg_defs split: option.splits)

lemma finished_exec: "finished c \<Longrightarrow> finished (exec gs sch c)"
  using exec_invariant [where P = finished] finished_step by blast

lemma sinv_enabled:
  assumes "sinv F c" and "\<not> finished c"
  shows "step gs Main c \<noteq> None \<or> step gs (Consumer 0) c \<noteq> None"
proof -
  obtain p cs s where c: "c = (p, cs, s)"
    by (cases c) auto
  from assms(1) c obtain t where t: "threads s = [t]" "phase p s t"
    using sinvE by blast
  show ?thesis
  proof (cases p)
    case Ready
    with assms(2) c obtain x cs' where "cs = x # cs'"
      by (cases cs) (auto simp: finished_def cfg_defs)
    with Ready c show ?thesis by (cases x) simp_all
  next
    case StopPut
    show ?thesis
    proof (cases "full s")
      case False
      with StopPut c show ?thesis by (simp add: stop_put_def)
    next
      case True
      then obtain x q where "queue s = x # q"
        by (cases "queue s") (auto simp: full_def)
      with t StopPut c show ?thesis
        by (cases t rule: alive.cases) (auto simp: phase_def process_queue_step_def)
    qed
  next
    case StopJoin
    with t c show ?thesis
      by (cases t rule: alive.cases)
         (auto simp: phase_def process_queue_step_def stop_join_def split: list.splits)
  next
    case StopFinish
    with c show ?thesis by simp
  qed
qed

lemma round_decreases:
  assumes "sinv F c" and "\<not> finished c"
  shows "work (exec gs [Main, Consumer 0] c) < work c"
proof (cases "step gs Main c")
  case None
  with sinv_enabled [OF assms, of gs] obtain c' where c': "step gs (Consumer 0) c = Some c'"
    by auto
  with None work_step [OF c'] show ?thesis by simp
next
  case (Some c')
  have "work (exec gs [Consumer 0] c') \<le> work c'"
    by (rule work_exec)
  with Some work_step [OF Some] show ?thesis by simp
qed

lemma round_robin_finishes:
  assumes "sinv F c" and "work c \<le> n"
  shows "finished (exec gs (concat (replicate n [Main, Consumer 0])) c)"
  using assms
proof (induction n arbitrary: c)
  case 0
  then have "rank (pc_of c) = 0" "todo_of c = []"
    by (simp_all add: work_def)
  then show ?case
    by (cases "pc_of c") (simp_all add: finished_def)
next
  case (Suc n)
  let ?c' = "exec gs [Main, Consumer 0] c"
  have eq: "exec gs (concat (replicate (Suc n) [Main, Consumer 0])) c
     = exec gs (concat (replicate n [Main, Consumer 0])) ?c'"
    by simp
  show ?case
  proof (cases "finished c")
    case True
    then show ?thesis by (rule finished_exec)
  next
    case False
    from round_decreases [OF Suc.prems(1) False, of gs] Suc.prems(2)
    have "work ?c' \<le> n" by simp
    moreover have "sinv F ?c'"
      using Suc.prems(1) by (rule sinv_exec)
    ultimately show ?thesis
      unfolding eq by (rule Suc.IH [rotated])
  qed
qed

subsection \<open>Draining and accounting\<close>

lemma stop_begin_simps:
  "snd (stop_begin s) = s\<lparr>is_recording := False\<rparr>"
  "fst (stop_begin s) = (if thread s \<noteq> None then StopPut else StopFinish)"
  by (simp_all add: stop_begin_def)

lemma stop_finish_eq:
  "stop_finish gs s =
     s\<lparr>writer := None, reports := reports s @ [(filename s, size_mb gs s, dropped_frames s)]\<rparr>"
  by (cases "writer s") (simp_all add: stop_finish_def size_mb_def)

lemma rec_inv_step:
  assumes "rec_inv post c" and "step gs a c = Some c'"
  shows "rec_inv post c'"
proof -
  obtain p cs s where c: "c = (p, cs, s)"
    by (cases c) auto
  show ?thesis
  proof (cases a)
    case (Consumer i)
    with assms c obtain s' where s': "process_queue_step i s = Some s'" "c' = (p, cs, s')"
      by (auto split: option.splits)
    then have "is_recording s' = is_recording s"
      by (auto simp: process_queue_step_def
            split: if_splits cthread.splits list.splits option.splits)
    with assms(1) c s' show ?thesis
      by (simp add: rec_inv_def cfg_defs)
  next
    case Main
    show ?thesis
    proof (cases p)
      case Ready
      show ?thesis
      proof (cases cs)
        case Nil
        with Ready Main assms c show ?thesis by simp
      next
        case (Cons x cs')
        show ?thesis
        proof (cases x)
          case (Start oc)
          with Ready Cons assms(1) c show ?thesis by (simp add: rec_inv_def cfg_defs)
        next
          case (Write f)
          have "\<exists>pre'. cs' = pre' @ Stop # post" if "Write f # cs' = pre @ Stop # post" for pre
            using that by (cases pre) auto
          with Write Ready Cons Main assms c show ?thesis
            by (auto simp: rec_inv_def cfg_defs write_frame_def)
        next
          case Stop
          with Ready Cons Main assms c show ?thesis
            by (auto simp: rec_inv_def cfg_defs stop_begin_simps)
        qed
      qed
    next
      case StopPut
      with Main assms c show ?thesis
        by (auto simp: rec_inv_def cfg_defs stop_put_def split: if_splits)
    next
      case StopJoin
      with Main assms c show ?thesis
        by (auto simp: rec_inv_def cfg_defs stop_join_def split: if_splits option.splits)
    next
      case StopFinish
      with Main assms c show ?thesis
        by (auto simp: rec_inv_def cfg_defs stop_finish_eq)
    qed
  qed
qed

lemma rec_inv_exec: "rec_inv post c \<Longrightarrow> rec_inv post (exec gs sch c)"
  using exec_invariant [where P = "rec_inv post"] rec_inv_step by blast

lemma rec_inv_after_stop:
  assumes "rec_inv post c" and "length (todo_of c) \<le> length post"
  shows "\<not> is_recording (st_of c)"
  using assms by (auto simp: rec_inv_def)

lemma submitted_map_Write: "submitted (map Write fs @ cs) = fs @ submitted cs"
  by (induction fs) simp_all

lemma maxsize_main:
  assumes "main_step gs (p, cs, s) = Some c'"
  shows "maxsize (st_of c') = maxsize s"
proof (cases p)
  case Ready
  show ?thesis
  proof (cases cs)
    case Nil
    with Ready assms show ?thesis by simp
  next
    case (Cons x cs')
    with Ready assms show ?thesis
      by (cases x)
         (auto simp: cfg_defs start_def write_frame_def stop_begin_simps
            split: open_outcome.splits)
  qed
next
  case StopPut
  with assms show ?thesis
    by (auto simp: cfg_defs stop_put_def split: if_splits)
next
  case StopJoin
  with assms show ?thesis
    by (auto simp: cfg_defs stop_join_def split: if_splits option.splits)
next
  case StopFinish
  with assms show ?thesis
    by (auto simp: cfg_defs stop_finish_eq)
qed

lemma consumer_frame:
  assumes "process_queue_step i s = Some s'"
  shows "maxsize s' = maxsize s" "is_recording s' = is_recording s"
    "dropped_frames s' = dropped_frames s" "reports s' = reports s"
    "length (queue s') \<le> length (queue s)"
  using assms
  by (auto simp: process_queue_step_def
        split: if_splits cthread.splits list.splits option.splits)

lemma maxsize_step:
  assumes "step gs a c = Some c'"
  shows "maxsize (st_of c') = maxsize (st_of c)"
proof -
  obtain p cs s where c: "c = (p, cs, s)"
    by (cases c) auto
  show ?thesis
  proof (cases a)
    case Main
    with assms c maxsize_main [of gs p cs s c'] show ?thesis by (simp add: cfg_defs)
  next
    case (Consumer i)
    with assms c consumer_frame(1) [of i s] show ?thesis
      by (auto simp: cfg_defs split: option.splits)
  qed
qed

lemma main_dropped:
  assumes "main_step gs (p, cs, s) = Some c'" and "\<not> (p = Ready \<and> cs \<noteq> [] \<and> \<not> is_Stop (hd cs))"
  shows "dropped_frames (st_of c') = dropped_frames s"
proof (cases p)
  case Ready
  show ?thesis
  proof (cases cs)
    case Nil
    with Ready assms show ?thesis by simp
  next
    case (Cons x cs')
    with Ready assms show ?thesis
      by (cases x) (auto simp: cfg_defs stop_begin_simps)
  qed
next
  case StopPut
  with assms show ?thesis
    by (auto simp: cfg_defs stop_put_def split: if_splits)
next
  case StopJoin
  with assms show ?thesis
    by (auto simp: cfg_defs stop_join_def split: if_splits option.splits)
next
  case StopFinish
  with assms show ?thesis
    by (auto simp: cfg_defs stop_finish_eq)
qed

lemma sinv_not_full:
  assumes "sinv F (Ready, Write f # cs, s)" and "is_recording s"
    and "int (length F) \<le> maxsize s" and "dropped_frames s = 0"
  shows "\<not> full s"
proof -
  from assms(1) obtain t where t: "threads s = [t]" "phase Ready s t"
    and len: "int (length (pipeline (Write f # cs) s)) + dropped_frames s = int (length F)"
    by (rule sinvE)
  from t(2) assms(2) have "length (frames_in (queue s)) = length (queue s)"
    by (simp add: phase_def length_frames_in)
  moreover have "length (frames_in (queue s)) < length (pipeline (Write f # cs) s)"
    using assms(2) by (simp add: pipeline_def)
  ultimately show ?thesis
    using len assms(3,4) by (simp add: full_def)
qed

lemma drop_free_step:
  assumes "sinv F c" and "int (length F) \<le> maxsize (st_of c)"
    and "dropped_frames (st_of c) = 0" and "step gs a c = Some c'"
  shows "dropped_frames (st_of c') = 0"
proof -
  obtain p cs s where c: "c = (p, cs, s)"
    by (cases c) auto
  show ?thesis
  proof (cases a)
    case (Consumer i)
    with assms c consumer_frame(3) [of i s] show ?thesis
      by (auto simp: cfg_defs split: option.splits)
  next
    case Main
    show ?thesis
    proof (cases "p = Ready \<and> cs \<noteq> [] \<and> \<not> is_Stop (hd cs)")
      case False
      with Main assms c main_dropped [of gs p cs s c'] show ?thesis
        by (simp add: cfg_defs)
    next
      case True
      then obtain x cs' where cs: "p = Ready" "cs = x # cs'" "\<not> is_Stop x"
        by (cases cs) auto
      show ?thesis
      proof (cases x)
        case (Start oc)
        with cs assms(1) c show ?thesis by (simp add: sinv_def cfg_defs)
      next
        case (Write f)
        show ?thesis
        proof (cases "is_recording s")
          case False
          with Write cs Main assms c show ?thesis
            by (auto simp: cfg_defs write_frame_def)
        next
          case True
          with sinv_not_full [of F f cs' s] assms c cs Write have "\<not> full s"
            by (simp add: cfg_defs)
          with Write cs Main assms c show ?thesis
            by (auto simp: cfg_defs write_frame_def)
        qed
      next
        case Stop
        with cs show ?thesis by simp
      qed
    qed
  qed
qed

lemma drop_free_exec:
  assumes "sinv F c" and "int (length F) \<le> maxsize (st_of c)"
    and "dropped_frames (st_of c) = 0"
  shows "dropped_frames (st_of (exec gs sch c)) = 0"
proof -
  let ?P = "\<lambda>c'. sinv F c' \<and> maxsize (st_of c') = maxsize (st_of c) \<and> dropped_frames (st_of c') = 0"
  have "?P (exec gs sch c)"
  proof (rule exec_invariant [where P = ?P])
    show "?P c" using assms by simp
  next
    fix a c1 c2
    assume "?P c1" and "step gs a c1 = Some c2"
    with assms(2) show "?P c2"
      using sinv_step [of F c1 gs a c2] maxsize_step [of gs a c1 c2]
        drop_free_step [of F c1 gs a c2] by simp
  qed
  then show ?thesis by simp
qed

lemma sinv_drained:
  assumes "sinv F c" and "\<not> is_recording (st_of c)" and "pc_of c = Ready \<or> pc_of c = StopFinish"
  shows "threads (st_of c) = [Exited] \<and> queue (st_of c) = [] \<and>
         pipeline (todo_of c) (st_of c) = written (st_of c)"
proof -
  obtain p cs s where c: "c = (p, cs, s)"
    by (cases c) auto
  from assms(1) c obtain t where t: "threads s = [t]" "phase p s t"
    using sinvE by blast
  with assms(2,3) c have "t = Exited \<and> queue s = []"
    by (auto simp: phase_def cfg_defs)
  with t assms(2) c show ?thesis
    by (simp add: cfg_defs pipeline_def)
qed

text \<open>
  Claim C6 (no accept after stop). In a recording session whose calls are
  \<open>pre\<close>, \<open>stop\<close>, \<open>post\<close>: from the moment \<open>stop\<close> is invoked (the calls left
  are at most \<open>post\<close>) the writer does not record and \<open>write\<close> changes nothing, so a
  frame submitted then is neither enqueued nor counted as dropped. When all calls have
  returned the queue is empty, and the frames in the file plus the dropped frames are as
  many as the frames submitted before the first \<open>stop\<close>, whatever \<open>post\<close> submits.
\<close>

theorem no_accept_after_stop:
  assumes "list_all (\<lambda>x. \<not> is_Start x) (pre @ Stop # post)"
    and "c = exec getsize sch (Ready, pre @ Stop # post, active fname N art)"
  shows "(length (todo_of c) \<le> length post \<longrightarrow>
            \<not> is_recording (st_of c) \<and> write_frame f (st_of c) = st_of c) \<and>
         (finished c \<longrightarrow>
            queue (st_of c) = [] \<and>
            int (length (written (st_of c))) + dropped_frames (st_of c)
              = int (length (submitted (pre @ Stop # post))))"
proof -
  let ?c0 = "(Ready, pre @ Stop # post, active fname N art)"
  have "rec_inv post ?c0"
    using assms(1) by (auto simp: rec_inv_def cfg_defs)
  then have r: "rec_inv post c"
    unfolding assms(2) by (rule rec_inv_exec)
  have s: "sinv (submitted (pre @ Stop # post)) c"
    unfolding assms(2) using assms(1) by (intro sinv_exec sinv_active)
  have 1: "\<not> is_recording (st_of c) \<and> write_frame f (st_of c) = st_of c"
    if "length (todo_of c) \<le> length post"
    using rec_inv_after_stop [OF r that] by (simp add: write_frame_def)
  have 2: "queue (st_of c) = [] \<and>
      int (length (written (st_of c))) + dropped_frames (st_of c)
        = int (length (submitted (pre @ Stop # post)))"
    if "finished c"
  proof -
    from that have f: "pc_of c = Ready" "todo_of c = []"
      by (simp_all add: finished_def)
    with 1 have "\<not> is_recording (st_of c)" by simp
    from sinv_drained [OF s this] f s show ?thesis
      by (simp add: sinv_def)
  qed
  from 1 2 show ?thesis by blast
qed

text \<open>
  Three frames into a queue of size two, then \<open>stop\<close>, then a fourth frame: two are
  written, one is dropped, the fourth is counted nowhere.
\<close>

theorem no_accept_after_stop_witness:
  "list_all (\<lambda>x. \<not> is_Start x) ([Write (1::nat), Write 2, Write 3] @ Stop # [Write 4]) \<and>
   finished (exec length
     [Main, Main, Main, Main, Consumer 0, Main, Consumer 0, Consumer 0, Consumer 0, Consumer 0,
      Consumer 0, Main, Main, Main]
     (Ready, [Write (1::nat), Write 2, Write 3] @ Stop # [Write 4], active ''cam.mp4'' 2 None)) \<and>
   written (st_of (exec length
     [Main, Main, Main, Main, Consumer 0, Main, Consumer 0, Consumer 0, Consumer 0, Consumer 0,
      Consumer 0, Main, Main, Main]
     (Ready, [Write (1::nat), Write 2, Write 3] @ Stop # [Write 4], active ''cam.mp4'' 2 None)))
     = [1, 2] \<and>
   dropped_frames (st_of (exec length
     [Main, Main, Main, Main, Consumer 0, Main, Consumer 0, Consumer 0, Consumer 0, Consumer 0,
      Consumer 0, Main, Main, Main]
     (Ready, [Write (1::nat), Write 2, Write 3] @ Stop # [Write 4], active ''cam.mp4'' 2 None)))
     = 1 \<and>
   submitted ([Write (1::nat), Write 2, Write 3] @ Stop # [Write 4]) = [1, 2, 3]"
  using no_accept_after_stop [where pre = "[Write (1::nat), Write 2, Write 3]"
      and post = "[Write 4]" and getsize = length and fname = "''cam.mp4''" and N = 2
      and art = None and f = 5
      and sch = "[Main, Main, Main, Main, Consumer 0, Main, Consumer 0, Consumer 0, Consumer 0,
        Consumer 0, Consumer 0, Main, Main, Main]", OF _ refl]
  by (simp add: op_defs cfg_defs finished_def written_def)

text \<open>
  Claim C1 (drain guarantee). A started writer with queue size \<open>N\<close> receives
  \<open>K \<le> N\<close> frames and then \<open>stop\<close>, the consumer running at any speed (any
  schedule). No frame is ever dropped. Once \<open>stop\<close> has passed its \<open>join\<close>, and so
  in particular when it has returned, the consumer thread has left its loop, the queue is
  empty and the file holds exactly the \<open>K\<close> frames in the order of submission. And
  \<open>stop\<close> does return: from every reachable configuration, letting the calling thread
  and the consumer run in turn for \<open>7 K + 7\<close> rounds ends the call.
\<close>

theorem drain_guarantee:
  assumes "int (length fs) \<le> N"
    and "c = exec getsize sch (Ready, map Write fs @ [Stop], active fname N art)"
  shows "dropped_frames (st_of c) = 0 \<and>
         (pc_of c = StopFinish \<or> finished c \<longrightarrow>
            artifact (st_of c) = Some fs \<and> threads (st_of c) = [Exited] \<and> queue (st_of c) = []) \<and>
         finished (exec getsize (concat (replicate (7 * length fs + 7) [Main, Consumer 0])) c)"
proof -
  let ?rest = "map Write fs @ [Stop]"
  let ?c0 = "(Ready, ?rest, active fname N art)"
  have sf: "list_all (\<lambda>x. \<not> is_Start x) ?rest"
    by (simp add: list_all_iff)
  have F: "submitted ?rest = fs"
    by (simp add: submitted_map_Write)
  have s0: "sinv fs ?c0"
    using sinv_active [OF sf, of fname N art] by (simp add: F)
  then have s: "sinv fs c"
    unfolding assms(2) by (rule sinv_exec)
  have "int (length fs) \<le> maxsize (st_of ?c0)" "dropped_frames (st_of ?c0) = 0"
    using assms(1) by (simp_all add: cfg_defs active_def start_def init_def)
  with s0 have d: "dropped_frames (st_of c) = 0"
    unfolding assms(2) by (rule drop_free_exec)
  have "rec_inv [] ?c0"
    using sf by (simp add: rec_inv_def cfg_defs)
  then have r: "rec_inv [] c"
    unfolding assms(2) by (rule rec_inv_exec)
  have 2: "artifact (st_of c) = Some fs \<and> threads (st_of c) = [Exited] \<and> queue (st_of c) = []"
    if "pc_of c = StopFinish \<or> finished c"
  proof -
    from that r have nr: "\<not> is_recording (st_of c)"
      by (auto simp: rec_inv_def finished_def)
    from that have "pc_of c = Ready \<or> pc_of c = StopFinish"
      by (auto simp: finished_def)
    from sinv_drained [OF s nr this]
    have dr: "threads (st_of c) = [Exited]" "queue (st_of c) = []"
      "pipeline (todo_of c) (st_of c) = written (st_of c)"
      by simp_all
    with s d have "subseq (written (st_of c)) fs" "length (written (st_of c)) = length fs"
      by (simp_all add: sinv_def)
    then have "written (st_of c) = fs"
      by (rule subseq_same_length)
    moreover from s have "artifact (st_of c) \<noteq> None"
      by (simp add: sinv_def)
    ultimately show ?thesis
      using dr by (auto simp: written_def)
  qed
  have "work c \<le> work ?c0"
    unfolding assms(2) by (rule work_exec)
  also have "work ?c0 = 7 * length fs + 7"
    by (simp add: work_def cfg_defs active_def start_def init_def)
  finally have 3: "finished (exec getsize (concat (replicate (7 * length fs + 7) [Main, Consumer 0])) c)"
    using round_robin_finishes [OF s] by blast
  from d 2 3 show ?thesis by blast
qed

text \<open>
  Two frames and queue size two: the hypotheses hold, and after the rounds the call has
  returned with both frames in the file.
\<close>

theorem drain_guarantee_witness:
  "int (length [1::nat, 2]) \<le> 2 \<and>
   dropped_frames (st_of (exec length [Main, Consumer 0, Main]
     (Ready, map Write [1::nat, 2] @ [Stop], active ''cam.mp4'' 2 None))) = 0 \<and>
   finished (exec length
     ([Main, Consumer 0, Main] @ concat (replicate (7 * length [1::nat, 2] + 7) [Main, Consumer 0]))
     (Ready, map Write [1::nat, 2] @ [Stop], active ''cam.mp4'' 2 None)) \<and>
   artifact (st_of (exec length
     ([Main, Consumer 0, Main] @ concat (replicate (7 * length [1::nat, 2] + 7) [Main, Consumer 0]))
     (Ready, map Write [1::nat, 2] @ [Stop], active ''cam.mp4'' 2 None))) = Some [1, 2]"
proof -
  let ?c0 = "(Ready, map Write [1::nat, 2] @ [Stop], active ''cam.mp4'' 2 None)"
  let ?rr = "concat (replicate (7 * length [1::nat, 2] + 7) [Main, Consumer 0])"
  have h: "int (length [1::nat, 2]) \<le> 2" by simp
  note a = drain_guarantee [where getsize = length and sch = "[Main, Consumer 0, Main]"
      and fname = "''cam.mp4''" and art = None, OF h refl]
  note b = drain_guarantee [where getsize = length and sch = "[Main, Consumer 0, Main] @ ?rr"
      and fname = "''cam.mp4''" and art = None, OF h refl]
  from a have "finished (exec length ([Main, Consumer 0, Main] @ ?rr) ?c0)"
    unfolding exec_append by blast
  with a b h show ?thesis by blast
qed

subsection \<open>The bound of the queue\<close>

lemma qinv_main:
  assumes "qinv (p, cs, s)" and "main_step gs (p, cs, s) = Some c'"
  shows "qinv c'"
proof (cases p)
  case Ready
  show ?thesis
  proof (cases cs)
    case Nil
    with Ready assms show ?thesis by simp
  next
    case (Cons x cs')
    with Ready assms show ?thesis
      by (cases x)
         (auto simp: qinv_def cfg_defs start_def write_frame_def full_def stop_begin_simps
            split: open_outcome.splits)
  qed
next
  case StopPut
  with assms show ?thesis
    by (auto simp: qinv_def cfg_defs stop_put_def full_def split: if_splits)
next
  case StopJoin
  with assms show ?thesis
    by (auto simp: qinv_def cfg_defs stop_join_def split: if_splits option.splits)
next
  case StopFinish
  with assms show ?thesis
    by (auto simp: qinv_def cfg_defs stop_finish_eq)
qed

lemma qinv_step:
  assumes "qinv c" and "step gs a c = Some c'"
  shows "qinv c'"
proof -
  obtain p cs s where c: "c = (p, cs, s)"
    by (cases c) auto
  show ?thesis
  proof (cases a)
    case Main
    with assms c qinv_main [of p cs s gs c'] show ?thesis by simp
  next
    case (Consumer i)
    with assms c obtain s' where s': "process_queue_step i s = Some s'" "c' = (p, cs, s')"
      by (auto split: option.splits)
    from consumer_frame(1,5) [OF s'(1)] assms(1) c s'(2) show ?thesis
      by (auto simp: qinv_def cfg_defs)
  qed
qed

lemma qinv_exec: "qinv c \<Longrightarrow> qinv (exec gs sch c)"
  using exec_invariant [where P = qinv] qinv_step by blast

lemma maxsize_exec: "maxsize (st_of (exec gs sch c)) = maxsize (st_of c)"
  using exec_invariant [where P = "\<lambda>c'. maxsize (st_of c') = maxsize (st_of c)"] maxsize_step
  by (metis (mono_tags, lifting))

lemma writes_paused:
  "exec gs (replicate (length fs) Main) (Ready, map Write fs @ cs, s)
     = (Ready, cs, foldl (\<lambda>s f. write_frame f s) s fs)"
  by (induction fs arbitrary: s) simp_all

lemma foldl_write_room:
  assumes "is_recording s" and "0 < maxsize s"
    and "length (queue s) + length fs \<le> nat (maxsize s)"
  shows "foldl (\<lambda>s f. write_frame f s) s fs = s\<lparr>queue := queue s @ map Some fs\<rparr>"
  using assms
proof (induction fs arbitrary: s)
  case Nil
  then show ?case by simp
next
  case (Cons f fs)
  let ?s = "s\<lparr>queue := queue s @ [Some f]\<rparr>"
  from Cons.prems have w: "write_frame f s = ?s"
    by (simp add: write_frame_def full_def)
  from Cons.prems have "is_recording ?s" "0 < maxsize ?s"
    "length (queue ?s) + length fs \<le> nat (maxsize ?s)"
    by simp_all
  from Cons.IH [OF this] w show ?case by simp
qed

text \<open>
  Claim C3 (boundedness), for \<open>N \<ge> 1\<close>. Whatever the calls and the schedule, the queue
  of a writer built with queue size \<open>N \<ge> 1\<close> never holds more than \<open>N\<close> items. When
  \<open>N + 1\<close> frames are submitted to a started writer while the consumer does not run,
  the first \<open>N\<close> are queued, the last is rejected and the counter of dropped frames is 1.
\<close>

theorem boundedness:
  assumes "0 < N"
  shows "int (length (queue (st_of (exec getsize sch (Ready, calls, init fname N art))))) \<le> N \<and>
         (length fs = nat N + 1 \<longrightarrow>
            exec getsize (replicate (length fs) Main) (Ready, map Write fs, active fname N art)
              = (Ready, [],
                 (active fname N art)\<lparr>queue := map Some (butlast fs), dropped_frames := 1\<rparr>))"
proof -
  let ?c = "exec getsize sch (Ready, calls, init fname N art)"
  have "qinv (Ready, calls, init fname N art)"
    using assms by (simp add: qinv_def cfg_defs init_def)
  then have "qinv ?c"
    by (rule qinv_exec)
  moreover have "maxsize (st_of ?c) = N"
    by (simp add: maxsize_exec) (simp add: cfg_defs init_def)
  ultimately have 1: "int (length (queue (st_of ?c))) \<le> N"
    using assms by (auto simp: qinv_def)
  have 2: "exec getsize (replicate (length fs) Main) (Ready, map Write fs, active fname N art)
              = (Ready, [],
                 (active fname N art)\<lparr>queue := map Some (butlast fs), dropped_frames := 1\<rparr>)"
    if len: "length fs = nat N + 1"
  proof -
    let ?a = "active fname N art :: 'a state"
    let ?w = "\<lambda>s f. write_frame f s"
    from len have fs: "fs = butlast fs @ [last fs]" "length (butlast fs) = nat N"
      by (cases fs rule: rev_cases; simp)+
    have a: "is_recording ?a" "maxsize ?a = N" "queue ?a = []" "dropped_frames ?a = 0"
      by (simp_all add: active_def start_def init_def)
    with assms fs(2) have "foldl ?w ?a (butlast fs) = ?a\<lparr>queue := map Some (butlast fs)\<rparr>"
      using foldl_write_room [of ?a "butlast fs"] by simp
    moreover have "foldl ?w ?a fs = write_frame (last fs) (foldl ?w ?a (butlast fs))"
      by (subst fs(1)) simp
    ultimately have "foldl ?w ?a fs
        = ?a\<lparr>queue := map Some (butlast fs), dropped_frames := 1\<rparr>"
      using a assms fs(2) by (simp add: write_frame_def full_def)
    with writes_paused [of getsize fs "[]" ?a] show ?thesis by simp
  qed
  from 1 2 show ?thesis by blast
qed

text \<open>
  With queue size 0 the claim fails: \<open>queue.Queue(maxsize=0)\<close> is unbounded, so after
  one frame, submitted while the consumer does not run, the queue holds more than 0
  frames and the counter is 0, not 1.
\<close>

theorem boundedness_counterexample:
  "\<not> int (length (queue (st_of (exec length [Main]
        (Ready, [Write (1::nat)], active ''cam.mp4'' 0 None))))) \<le> 0 \<and>
   dropped_frames (st_of (exec length [Main]
        (Ready, [Write (1::nat)], active ''cam.mp4'' 0 None))) \<noteq> 1"
  by (simp add: op_defs cfg_defs)

text \<open>
  Queue size two: a run with four frames stays within two items, and three frames with
  the consumer not running leave two queued and one dropped.
\<close>

theorem boundedness_witness:
  "(0::int) < 2 \<and>
   int (length (queue (st_of (exec length [Main, Main, Main, Main, Consumer 0, Main]
      (Ready, [Start Opened, Write (1::nat), Write 2, Write 3, Write 4], init ''cam.mp4'' 2 None))))) \<le> 2 \<and>
   exec length (replicate (length [1::nat, 2, 3]) Main)
      (Ready, map Write [1::nat, 2, 3], active ''cam.mp4'' 2 None)
    = (Ready, [],
       (active ''cam.mp4'' 2 None)\<lparr>queue := [Some (1::nat), Some 2], dropped_frames := 1\<rparr>)"
  using boundedness [of 2 length "[Main, Main, Main, Main, Consumer 0, Main]"
      "[Start Opened, Write (1::nat), Write 2, Write 3, Write 4]" "''cam.mp4''" None "[1::nat, 2, 3]"]
  by simp

subsection \<open>The sentinel\<close>







subsection \<open>The counter and a failed start\<close>

lemma main_counter:
  assumes "main_step gs (p, cs, s) = Some (p', cs', s')"
  shows "dropped_frames s' =
           (if p = Ready \<and> cs \<noteq> [] \<and> hd cs = Start Opened then 0
            else if p = Ready \<and> cs \<noteq> [] \<and> is_Write (hd cs) \<and> is_recording s \<and> full s
              then dropped_frames s + 1
            else dropped_frames s)"
    and "reports s' =
           (if p = StopFinish then reports s @ [(filename s, size_mb gs s, dropped_frames s)]
            else reports s)"
    and "p = Ready \<and> cs \<noteq> [] \<and> is_Stop (hd cs) \<longrightarrow> \<not> is_recording s'"
    and "\<not> is_recording s \<and> \<not> (p = Ready \<and> cs \<noteq> [] \<and> hd cs = Start Opened)
           \<longrightarrow> \<not> is_recording s'"
proof -
  have "dropped_frames s' =
           (if p = Ready \<and> cs \<noteq> [] \<and> hd cs = Start Opened then 0
            else if p = Ready \<and> cs \<noteq> [] \<and> is_Write (hd cs) \<and> is_recording s \<and> full s
              then dropped_frames s + 1
            else dropped_frames s) \<and>
        reports s' =
           (if p = StopFinish then reports s @ [(filename s, size_mb gs s, dropped_frames s)]
            else reports s) \<and>
        (p = Ready \<and> cs \<noteq> [] \<and> is_Stop (hd cs) \<longrightarrow> \<not> is_recording s') \<and>
        (\<not> is_recording s \<and> \<not> (p = Ready \<and> cs \<noteq> [] \<and> hd cs = Start Opened)
           \<longrightarrow> \<not> is_recording s')"
  proof (cases p)
    case Ready
    show ?thesis
    proof (cases cs)
      case Nil
      with Ready assms show ?thesis by simp
    next
      case (Cons x cs0)
      show ?thesis
      proof (cases x)
        case (Start oc)
        with Ready Cons assms show ?thesis
          by (cases oc) (auto simp: start_def)
      next
        case (Write f)
        with Ready Cons assms show ?thesis
          by (auto simp: write_frame_def)
      next
        case Stop
        with Ready Cons assms show ?thesis
          by (auto simp: stop_begin_simps)
      qed
    qed
  next
    case StopPut
    with assms show ?thesis
      by (auto simp: stop_put_def split: if_splits)
  next
    case StopJoin
    with assms show ?thesis
      by (auto simp: stop_join_def split: if_splits option.splits)
  next
    case StopFinish
    with assms show ?thesis
      by (auto simp: stop_finish_eq)
  qed
  then show "dropped_frames s' =
           (if p = Ready \<and> cs \<noteq> [] \<and> hd cs = Start Opened then 0
            else if p = Ready \<and> cs \<noteq> [] \<and> is_Write (hd cs) \<and> is_recording s \<and> full s
              then dropped_frames s + 1
            else dropped_frames s)"
    and "reports s' =
           (if p = StopFinish then reports s @ [(filename s, size_mb gs s, dropped_frames s)]
            else reports s)"
    and "p = Ready \<and> cs \<noteq> [] \<and> is_Stop (hd cs) \<longrightarrow> \<not> is_recording s'"
    and "\<not> is_recording s \<and> \<not> (p = Ready \<and> cs \<noteq> [] \<and> hd cs = Start Opened)
           \<longrightarrow> \<not> is_recording s'"
    by blast+
qed

text \<open>
  Claim C4 (the counter of dropped frames). For every step of every thread: the counter
  is 0 after a successful \<open>start\<close>; it grows by one when the step is a \<open>write\<close> on a
  recording writer whose queue is full; every other step leaves it as it is, so between
  \<open>start\<close> and \<open>stop\<close> it never decreases. Invoking \<open>stop\<close> ends the recording, a
  writer that does not record stays so until a successful \<open>start\<close> (and then no step
  changes the counter), and the last piece of \<open>stop\<close>, and no other step, prints a
  report, which carries the counter.
\<close>

theorem dropped_counter_semantics:
  assumes "step getsize a (p, cs, s) = Some (p', cs', s')"
  shows "dropped_frames s' =
           (if a = Main \<and> p = Ready \<and> cs \<noteq> [] \<and> hd cs = Start Opened then 0
            else if a = Main \<and> p = Ready \<and> cs \<noteq> [] \<and> is_Write (hd cs)
                    \<and> is_recording s \<and> full s
              then dropped_frames s + 1
            else dropped_frames s) \<and>
         reports s' =
           (if a = Main \<and> p = StopFinish
            then reports s @ [(filename s, size_mb getsize s, dropped_frames s)]
            else reports s) \<and>
         (a = Main \<and> p = Ready \<and> cs \<noteq> [] \<and> is_Stop (hd cs) \<longrightarrow> \<not> is_recording s') \<and>
         (\<not> is_recording s \<and> \<not> (a = Main \<and> p = Ready \<and> cs \<noteq> [] \<and> hd cs = Start Opened)
            \<longrightarrow> \<not> is_recording s')"
proof (cases a)
  case Main
  with assms have "main_step getsize (p, cs, s) = Some (p', cs', s')" by simp
  from main_counter [OF this] Main show ?thesis by simp
next
  case (Consumer i)
  with assms have "process_queue_step i s = Some s'"
    by (auto split: option.splits)
  from consumer_frame(2,3,4) [OF this] Consumer show ?thesis by simp
qed

text \<open>
  A third frame submitted to a full queue of size two: the step exists and the counter
  grows by one.
\<close>

theorem dropped_counter_semantics_witness:
  "step length Main (Ready, [Write (3::nat)], write_frame 2 (write_frame 1 (active ''cam.mp4'' 2 None)))
     = Some (Ready, [], (write_frame 2 (write_frame 1 (active ''cam.mp4'' 2 None)))\<lparr>dropped_frames := 1\<rparr>) \<and>
   dropped_frames ((write_frame 2 (write_frame (1::nat) (active ''cam.mp4'' 2 None)))\<lparr>dropped_frames := 1\<rparr>)
     = dropped_frames (write_frame 2 (write_frame (1::nat) (active ''cam.mp4'' 2 None))) + 1"
  using dropped_counter_semantics [of length Main Ready "[Write (3::nat)]"
      "write_frame 2 (write_frame 1 (active ''cam.mp4'' 2 None))" Ready "[]"
      "(write_frame 2 (write_frame 1 (active ''cam.mp4'' 2 None)))\<lparr>dropped_frames := 1\<rparr>"]
  by (simp add: op_defs)

lemma start_failed:
  assumes "oc \<noteq> Opened"
  shows "fst (start oc s) = False"
    and "is_recording (snd (start oc s)) = is_recording s"
    and "thread (snd (start oc s)) = thread s"
    and "threads (snd (start oc s)) = threads s"
    and "queue (snd (start oc s)) = queue s"
    and "dropped_frames (snd (start oc s)) = dropped_frames s"
    and "reports (snd (start oc s)) = reports s"
    and "writer s = None \<Longrightarrow> writer (snd (start oc s)) = None"
    and "artifact (snd (start oc s)) = left_by oc (artifact s)"
  using assms by (cases oc; simp add: start_def left_by_def)+

lemma start_failed_init:
  assumes "oc \<noteq> Opened"
  shows "snd (start oc (init fname N art)) = init fname N (left_by oc art)"
  using assms by (cases oc) (simp_all add: start_def left_by_def init_def)

text \<open>
  Claim C7 (failed start), as the code has it. When the writer cannot be opened or
  opening raises, \<open>start\<close> returns \<open>False\<close>; \<open>is_recording\<close>, \<open>thread\<close>, the table
  of threads, the queue and the counter keep their values, so the writer stays idle, no
  thread is started and no frame is written. \<open>start\<close> cleans nothing up: the file at
  the target path is afterwards what the failed attempt has left there, which is the
  file as it was before or an empty file that the attempt has created or truncated. On
  a fresh object, under every schedule, the state is the initial one but for this file.
\<close>

theorem start_failure_contract:
  assumes "oc \<noteq> Opened"
  shows "fst (start oc s) = False \<and>
         is_recording (snd (start oc s)) = is_recording s \<and>
         thread (snd (start oc s)) = thread s \<and>
         threads (snd (start oc s)) = threads s \<and>
         queue (snd (start oc s)) = queue s \<and>
         dropped_frames (snd (start oc s)) = dropped_frames s \<and>
         artifact (snd (start oc s)) = left_by oc (artifact s) \<and>
         (left_by oc art = art \<or> left_by oc art = Some []) \<and>
         st_of (exec getsize sch (Ready, [Start oc], init fname N art))
           = init fname N
               (if todo_of (exec getsize sch (Ready, [Start oc], init fname N art)) = []
                then left_by oc art else art)"
proof -
  let ?P = "\<lambda>c. pc_of c = Ready \<and>
     (todo_of c = [Start oc] \<and> st_of c = init fname N art \<or>
      todo_of c = [] \<and> st_of c = init fname N (left_by oc art))"
  have "?P (exec getsize sch (Ready, [Start oc], init fname N art))"
  proof (rule exec_invariant [where P = ?P])
    show "?P (Ready, [Start oc], init fname N art)"
      by (simp add: cfg_defs)
  next
    fix a c c'
    assume P: "?P c" and st: "step getsize a c = Some c'"
    obtain p cs s where c: "c = (p, cs, s)"
      by (cases c) auto
    show "?P c'"
    proof (cases a)
      case Main
      with P st c start_failed_init [OF assms, of fname N art] show ?thesis
        by (auto simp: cfg_defs)
    next
      case (Consumer i)
      with P st c show ?thesis
        by (auto simp: cfg_defs process_queue_step_def init_def split: option.splits)
    qed
  qed
  then have 1: "st_of (exec getsize sch (Ready, [Start oc], init fname N art))
           = init fname N
               (if todo_of (exec getsize sch (Ready, [Start oc], init fname N art)) = []
                then left_by oc art else art)"
    by auto
  have 2: "left_by oc art = art \<or> left_by oc art = Some []"
    by (cases oc; simp add: left_by_def attempt_def split: file_effect.splits)
  from 1 2 start_failed [OF assms, of s] show ?thesis by simp
qed

text \<open>
  No file exists at the target path and the attempt creates one before it fails:
  \<open>start\<close> returns \<open>False\<close> and the file exists afterwards.
\<close>

theorem start_failure_contract_counterexample:
  "fst (start (NotOpened Created) (init ''cam.mp4'' 128 None :: nat state)) = False \<and>
   artifact (init ''cam.mp4'' 128 None :: nat state) = None \<and>
   artifact (snd (start (NotOpened Created) (init ''cam.mp4'' 128 None :: nat state))) \<noteq> None"
  by (simp add: start_def init_def attempt_def)

text \<open>
  A writer that is not opened, on a path where a file with one frame exists and is
  truncated by the attempt: the state stays the initial one, with the empty file.
\<close>

theorem start_failure_contract_witness:
  "NotOpened Created \<noteq> Opened \<and>
   fst (start (NotOpened Created) (init ''cam.mp4'' 128 (Some [7::nat]))) = False \<and>
   st_of (exec length [Consumer 0, Main, Consumer 0]
      (Ready, [Start (NotOpened Created)], init ''cam.mp4'' 128 (Some [7::nat])))
     = init ''cam.mp4'' 128 (Some [])"
  using start_failure_contract [of "NotOpened Created" "init ''cam.mp4'' 128 (Some [7::nat])"
      "Some [7::nat]" length "[Consumer 0, Main, Consumer 0]" "''cam.mp4''" 128]
  by (simp add: op_defs cfg_defs left_by_def attempt_def)

subsection \<open>Stopping again, and stopping a writer that was not started\<close>

lemma round_robin_generic:
  assumes inv: "\<And>a c c'. P c \<Longrightarrow> step gs a c = Some c' \<Longrightarrow> P c'"
    and en: "\<And>c. P c \<Longrightarrow> \<not> finished c \<Longrightarrow>
               step gs Main c \<noteq> None \<or> step gs (Consumer 0) c \<noteq> None"
    and "P c" and "work c \<le> n"
  shows "finished (exec gs (concat (replicate n [Main, Consumer 0])) c)"
  using assms(3,4)
proof (induction n arbitrary: c)
  case 0
  then have "rank (pc_of c) = 0" "todo_of c = []"
    by (simp_all add: work_def)
  then show ?case
    by (cases "pc_of c") (simp_all add: finished_def)
next
  case (Suc n)
  let ?c' = "exec gs [Main, Consumer 0] c"
  have eq: "exec gs (concat (replicate (Suc n) [Main, Consumer 0])) c
     = exec gs (concat (replicate n [Main, Consumer 0])) ?c'"
    by simp
  show ?case
  proof (cases "finished c")
    case True
    then show ?thesis by (rule finished_exec)
  next
    case False
    have "work ?c' < work c"
    proof (cases "step gs Main c")
      case None
      with en [OF Suc.prems(1) False] obtain c1 where c1: "step gs (Consumer 0) c = Some c1"
        by auto
      with None work_step [OF c1] show ?thesis by simp
    next
      case (Some c1)
      have "work (exec gs [Consumer 0] c1) \<le> work c1"
        by (rule work_exec)
      with Some work_step [OF Some] show ?thesis by simp
    qed
    with Suc.prems(2) have "work ?c' \<le> n" by simp
    moreover have "P ?c'"
      using inv Suc.prems(1) by (rule exec_invariant)
    ultimately show ?thesis
      unfolding eq by (rule Suc.IH [rotated])
  qed
qed

lemma frames_in_replicate_None: "frames_in (replicate k None) = []"
  by (induction k) simp_all

lemma markers_get:
  assumes "markers k Waiting (x # q)"
  shows "markers k (Got x) q"
proof -
  from assms obtain q0 where q0: "x # q = map Some q0 @ replicate k None"
    by (auto simp: markers_def)
  show ?thesis
  proof (cases q0)
    case Nil
    with q0 show ?thesis
      by (cases k) (auto simp: markers_def)
  next
    case (Cons f q1)
    with q0 show ?thesis
      by (auto simp: markers_def)
  qed
qed

lemma markers_exit: "markers k (Got None) q \<Longrightarrow> markers k Exited q"
  by (simp add: markers_def)

lemma markers_process: "markers k (Got (Some f)) q \<Longrightarrow> markers k Waiting q"
  by (simp add: markers_def)

lemma markers_put:
  assumes "markers k t q"
  shows "markers (Suc k) t (q @ [None])"
proof (cases "alive t")
  case True
  with assms obtain q0 where "q = map Some q0 @ replicate k None"
    by (auto simp: markers_def)
  then have "q @ [None] = map Some q0 @ replicate (Suc k) None"
    by (simp add: replicate_append_same)
  with True show ?thesis
    by (auto simp: markers_def)
next
  case False
  with assms obtain j where "k = Suc j" "q = replicate j None"
    by (cases k) (auto simp: markers_def)
  with False show ?thesis
    by (simp add: markers_def replicate_append_same)
qed

lemma rinvE:
  assumes "rinv gs m s0 (p, cs, s)"
  obtains t where "threads s = [t]" "rphase m p cs s t" "\<not> is_recording s"
    "artifact s \<noteq> None" "accepted s = accepted s0" "filename s = filename s0"
    "dropped_frames s = dropped_frames s0"
    "reports s = (if p = Ready \<and> cs = []
         then reports s0 @ [(filename s0, size_mb gs s, dropped_frames s0)] else reports s0)"
  using assms by (auto simp: rinv_def cfg_defs finished_def)

lemma rinvI:
  assumes "threads s = [t]" "rphase m p cs s t" "\<not> is_recording s"
    "artifact s \<noteq> None" "accepted s = accepted s0" "filename s = filename s0"
    "dropped_frames s = dropped_frames s0"
    "reports s = (if p = Ready \<and> cs = []
         then reports s0 @ [(filename s0, size_mb gs s, dropped_frames s0)] else reports s0)"
  shows "rinv gs m s0 (p, cs, s)"
  using assms by (auto simp: rinv_def cfg_defs finished_def)

lemma rinv_main:
  assumes "rinv gs m s0 (p, cs, s)" and "main_step gs (p, cs, s) = Some c'"
  shows "rinv gs m s0 c'"
proof -
  from assms(1) obtain t where t: "threads s = [t]" "rphase m p cs s t"
    and nr: "\<not> is_recording s" and ar: "artifact s \<noteq> None"
    and ac: "accepted s = accepted s0" and fn: "filename s = filename s0"
    and dr: "dropped_frames s = dropped_frames s0"
    and rp: "reports s = (if p = Ready \<and> cs = []
         then reports s0 @ [(filename s0, size_mb gs s, dropped_frames s0)] else reports s0)"
    by (rule rinvE)
  show ?thesis
  proof (cases p)
    case Ready
    show ?thesis
    proof (cases "cs = [Stop]")
      case True
      from nr have same: "s\<lparr>is_recording := False\<rparr> = s" by simp
      from True Ready t(2) have "thread s = Some 0"
        by (simp add: rphase_def)
      with True Ready assms(2) same have c': "c' = (StopPut, [], s)"
        by (simp add: stop_begin_def)
      have "rphase m StopPut [] s t"
        using True Ready t(2) by (simp add: rphase_def)
      with t(1) nr ar ac fn dr rp True Ready show ?thesis
        unfolding c' by (intro rinvI [where t = t]) simp_all
    next
      case False
      with Ready t(2) have "cs = []"
        by (simp add: rphase_def)
      with Ready assms(2) show ?thesis by simp
    qed
  next
    case StopPut
    with assms(2) have c': "c' = (StopJoin, cs, s\<lparr>queue := queue s @ [None]\<rparr>)"
      by (auto simp: stop_put_def split: if_splits)
    have "rphase m StopJoin cs (s\<lparr>queue := queue s @ [None]\<rparr>) t"
      using StopPut t(2) by (simp add: rphase_def markers_put)
    moreover have "accepted (s\<lparr>queue := queue s @ [None]\<rparr>) = accepted s0"
      using ac by (simp add: accepted_def written_def frames_in_append)
    ultimately show ?thesis
      using t(1) nr ar fn dr rp StopPut
      unfolding c' by (intro rinvI [where t = t]) simp_all
  next
    case StopJoin
    with assms(2) t have c': "c' = (StopFinish, cs, s\<lparr>thread := None\<rparr>)" and ex: "t = Exited"
      by (auto simp: stop_join_def split: if_splits option.splits)
    have "rphase m StopFinish cs (s\<lparr>thread := None\<rparr>) t"
      using StopJoin t(2) ex by (simp add: rphase_def markers_def)
    moreover have "accepted (s\<lparr>thread := None\<rparr>) = accepted s0"
      using ac by (simp add: accepted_def written_def)
    ultimately show ?thesis
      using t(1) nr ar fn dr rp StopJoin
      unfolding c' by (intro rinvI [where t = t]) simp_all
  next
    case StopFinish
    let ?s' = "stop_finish gs s"
    from StopFinish assms(2) have c': "c' = (Ready, cs, ?s')"
      by simp
    from StopFinish t(2) have cs: "cs = []"
      by (simp add: rphase_def)
    have "rphase m Ready cs ?s' t"
      using StopFinish t(2) by (simp add: rphase_def stop_finish_eq)
    moreover have "accepted ?s' = accepted s0"
      using ac by (simp add: accepted_def written_def stop_finish_eq)
    moreover have "size_mb gs ?s' = size_mb gs s"
      by (simp add: size_mb_def stop_finish_eq)
    ultimately show ?thesis
      using t(1) nr ar fn dr rp StopFinish cs
      unfolding c' by (intro rinvI [where t = t]) (simp_all add: stop_finish_eq)
  qed
qed

lemma rphase_writer:
  assumes "rphase m p cs s t" and "alive t \<or> t = Got None"
  shows "writer s \<noteq> None"
  using assms by (cases p) (auto simp: rphase_def split: if_splits)

lemma rphase_update:
  assumes "rphase m p cs s t" and "t \<noteq> Exited" and "markers m t (queue s) \<longrightarrow> markers m t' q"
    and "markers (Suc m) t (queue s) \<longrightarrow> markers (Suc m) t' q"
  shows "rphase m p cs (s\<lparr>queue := q, artifact := a, threads := ts\<rparr>) t'"
  using assms by (cases p) (auto simp: rphase_def split: if_splits)

lemma rinv_consumer:
  assumes "rinv gs m s0 (p, cs, s)" and "process_queue_step i s = Some s'"
  shows "rinv gs m s0 (p, cs, s')"
proof -
  from assms(1) obtain t where t: "threads s = [t]" "rphase m p cs s t"
    and nr: "\<not> is_recording s" and ar: "artifact s \<noteq> None"
    and ac: "accepted s = accepted s0" and fn: "filename s = filename s0"
    and dr: "dropped_frames s = dropped_frames s0"
    and rp: "reports s = (if p = Ready \<and> cs = []
         then reports s0 @ [(filename s0, size_mb gs s, dropped_frames s0)] else reports s0)"
    by (rule rinvE)
  from assms(2) t(1) have i: "i = 0"
    by (simp add: process_queue_step_def split: if_splits)
  show ?thesis
  proof (cases t)
    case Waiting
    with assms(2) t(1) i obtain x q where q: "queue s = x # q"
      and s': "s' = s\<lparr>queue := q, threads := [Got x]\<rparr>"
      by (auto simp: process_queue_step_def split: list.splits)
    have "rphase m p cs (s\<lparr>queue := q, artifact := artifact s, threads := [Got x]\<rparr>) (Got x)"
proof (rule rphase_update [OF t(2)])
        show "t \<noteq> Exited" using Waiting by simp
        show "markers m t (queue s) \<longrightarrow> markers m (Got x) q"
          using Waiting q markers_get by auto
        show "markers (Suc m) t (queue s) \<longrightarrow> markers (Suc m) (Got x) q"
          using Waiting q markers_get by auto
      qed
    then have ph: "rphase m p cs s' (Got x)"
      by (simp add: s')
    have "accepted s' = accepted s"
      using t(1) Waiting q by (cases x) (simp_all add: s' accepted_def written_def)
    moreover have "size_mb gs s' = size_mb gs s"
      by (simp add: s' size_mb_def)
    ultimately show ?thesis
      using ph nr ar ac fn dr rp
      by (intro rinvI [where t = "Got x"]) (simp_all add: s')
  next
    case (Got x)
    show ?thesis
    proof (cases x)
      case None
      with assms(2) t(1) i Got have s': "s' = s\<lparr>threads := [Exited]\<rparr>"
        by (simp add: process_queue_step_def)
      have "rphase m p cs (s\<lparr>queue := queue s, artifact := artifact s, threads := [Exited]\<rparr>) Exited"
proof (rule rphase_update [OF t(2)])
        show "t \<noteq> Exited" using Got by simp
        show "markers m t (queue s) \<longrightarrow> markers m Exited (queue s)"
          using Got None markers_exit by auto
        show "markers (Suc m) t (queue s) \<longrightarrow> markers (Suc m) Exited (queue s)"
          using Got None markers_exit by auto
      qed
      then have ph: "rphase m p cs s' Exited"
        by (simp add: s')
      have "accepted s' = accepted s"
        using t(1) Got None by (simp add: s' accepted_def written_def)
      moreover have "size_mb gs s' = size_mb gs s"
        by (simp add: s' size_mb_def)
      ultimately show ?thesis
        using ph nr ar ac fn dr rp
        by (intro rinvI [where t = Exited]) (simp_all add: s')
    next
      case (Some f)
      with t(2) Got have w: "writer s \<noteq> None"
        using rphase_writer [of m p cs s t] by simp
      let ?a = "map_option (\<lambda>w. w @ [f]) (artifact s)"
      from w assms(2) t(1) i Got Some
      have s': "s' = s\<lparr>artifact := ?a, threads := [Waiting]\<rparr>"
        by (simp add: process_queue_step_def)
      have "rphase m p cs (s\<lparr>queue := queue s, artifact := ?a, threads := [Waiting]\<rparr>) Waiting"
proof (rule rphase_update [OF t(2)])
        show "t \<noteq> Exited" using Got by simp
        show "markers m t (queue s) \<longrightarrow> markers m Waiting (queue s)"
          using Got Some markers_process by auto
        show "markers (Suc m) t (queue s) \<longrightarrow> markers (Suc m) Waiting (queue s)"
          using Got Some markers_process by auto
      qed
      then have ph: "rphase m p cs s' Waiting"
        by (simp add: s')
      have ne: "\<not> (p = Ready \<and> cs = [])"
        using t(2) Got by (auto simp: rphase_def)
      have "accepted s' = accepted s"
        using t(1) Got Some ar by (auto simp: s' accepted_def written_def)
      then show ?thesis
        using ph nr ar ac fn dr rp ne
        by (intro rinvI [where t = Waiting]) (auto simp: s')
    qed
  next
    case Exited
    with assms(2) t(1) i show ?thesis
      by (simp add: process_queue_step_def)
  qed
qed

lemma rinv_step:
  assumes "rinv gs m s0 c" and "step gs a c = Some c'"
  shows "rinv gs m s0 c'"
proof -
  obtain p cs s where c: "c = (p, cs, s)"
    by (cases c) auto
  show ?thesis
  proof (cases a)
    case Main
    with assms c show ?thesis using rinv_main [of gs m s0 p cs s c'] by simp
  next
    case (Consumer i)
    with assms c show ?thesis
      using rinv_consumer [of gs m s0 p cs s i] by (auto split: option.splits)
  qed
qed

lemma rinv_exec: "rinv gs m s0 c \<Longrightarrow> rinv gs m s0 (exec gs sch c)"
  using exec_invariant [where P = "rinv gs m s0"] rinv_step by blast

lemma rinv_enabled:
  assumes "rinv gs m s0 c" and "\<not> finished c" and "m \<le> 1"
  shows "step gs Main c \<noteq> None \<or> step gs (Consumer 0) c \<noteq> None"
proof -
  obtain p cs s where c: "c = (p, cs, s)"
    by (cases c) auto
  from assms(1) c obtain t where t: "threads s = [t]" "rphase m p cs s t"
    using rinvE by blast
  show ?thesis
  proof (cases p)
    case Ready
    with t(2) assms(2) c have "cs = [Stop]"
      by (auto simp: rphase_def finished_def cfg_defs split: if_splits)
    with Ready c show ?thesis by simp
  next
    case StopPut
    show ?thesis
    proof (cases "full s")
      case False
      with StopPut c show ?thesis by (simp add: stop_put_def)
    next
      case True
      then obtain x q where q: "queue s = x # q"
        by (cases "queue s") (auto simp: full_def)
      with t(2) StopPut assms(3) have "alive t"
        by (cases "m = 0") (auto simp: rphase_def markers_def split: if_splits)
      with t(1) q c show ?thesis
        by (cases t rule: alive.cases) (auto simp: process_queue_step_def)
    qed
  next
    case StopJoin
    show ?thesis
    proof (cases t)
      case Waiting
      with t(2) StopJoin obtain x q where "queue s = x # q"
        by (cases "queue s") (auto simp: rphase_def markers_def)
      with Waiting t(1) c show ?thesis
        by (simp add: process_queue_step_def)
    next
      case (Got x)
      with t(1) c show ?thesis
        by (cases x) (simp_all add: process_queue_step_def)
    next
      case Exited
      with t StopJoin c show ?thesis
        by (simp add: rphase_def stop_join_def)
    qed
  next
    case StopFinish
    with c show ?thesis by simp
  qed
qed

lemma no_marker_frames: "None \<notin> set q \<Longrightarrow> \<exists>q0. q = map Some q0"
proof (induction q)
  case Nil
  then show ?case by simp
next
  case (Cons x q)
  then obtain q0 f where "q = map Some q0" "x = Some f"
    by (cases x) auto
  then have "x # q = map Some (f # q0)" by simp
  then show ?case by (rule exI [of _ "f # q0"])
qed

lemma rinv_initial:
  assumes "sinv F c" and "pc_of c = StopPut \<or> pc_of c = StopJoin"
  shows "rinv gs (if pc_of c = StopJoin then 1 else 0) (st_of c) (Ready, [Stop], st_of c)"
proof -
  obtain p cs s where c: "c = (p, cs, s)"
    by (cases c) auto
  from assms(1) c obtain t where t: "threads s = [t]" "phase p s t" and ar: "artifact s \<noteq> None"
    using sinvE by blast
  from assms(2) c consider (put) "p = StopPut" | (join) "p = StopJoin"
    by (auto simp: cfg_defs)
  then show ?thesis
  proof cases
    case put
    with t(2) have ph: "\<not> is_recording s" "thread s = Some 0" "writer s \<noteq> None" "alive t"
      "None \<notin> set (queue s)"
      by (simp_all add: phase_def)
    from no_marker_frames [OF ph(5)] ph(4) have "markers 0 t (queue s)"
      by (simp add: markers_def)
    with ph have "rphase 0 Ready [Stop] s t"
      by (simp add: rphase_def)
    with t(1) ph(1) ar have "rinv gs 0 s (Ready, [Stop], s)"
      by (intro rinvI [where t = t]) simp_all
    with put c show ?thesis by (simp add: cfg_defs)
  next
    case join
    with t(2) have ph: "\<not> is_recording s" "thread s = Some 0" "writer s \<noteq> None"
      "if alive t then \<exists>q. queue s = map Some q @ [None] else queue s = []"
      by (simp_all add: phase_def)
    then have "markers 1 t (queue s)"
      by (auto simp: markers_def split: if_splits)
    with ph have "rphase 1 Ready [Stop] s t"
      by (simp add: rphase_def)
    with t(1) ph(1) ar have "rinv gs 1 s (Ready, [Stop], s)"
      by (intro rinvI [where t = t]) simp_all
    with join c show ?thesis by (simp add: cfg_defs)
  qed
qed

lemma rinv_finished:
  assumes "rinv gs m s0 c" and "finished c"
  shows "written (st_of c) = accepted s0 \<and> threads (st_of c) = [Exited] \<and>
         thread (st_of c) = None \<and> writer (st_of c) = None \<and>
         queue (st_of c) = replicate m None \<and>
         reports (st_of c) = reports s0 @ [(filename s0, size_mb gs (st_of c), dropped_frames s0)]"
proof -
  obtain p cs s where c: "c = (p, cs, s)"
    by (cases c) auto
  from assms(2) c have f: "p = Ready" "cs = []"
    by (simp_all add: finished_def cfg_defs)
  from assms(1) c obtain t where t: "threads s = [t]" "rphase m p cs s t"
    and ac: "accepted s = accepted s0"
    and rp: "reports s = (if p = Ready \<and> cs = []
         then reports s0 @ [(filename s0, size_mb gs s, dropped_frames s0)] else reports s0)"
    using rinvE by blast
  from t(2) f have cl: "thread s = None" "writer s = None" "t = Exited"
    "queue s = replicate m None"
    by (simp_all add: rphase_def)
  with t(1) ac have "written s = accepted s0"
    by (simp add: accepted_def frames_in_replicate_None)
  with cl t(1) rp f c show ?thesis
    by (simp add: cfg_defs)
qed

text \<open>
  Claim C9 (stop invoked again), as the code has it. A recording session has reached
  the configuration \<open>c\<close>, and \<open>stop\<close> is invoked on its state.

  Closed (the calling thread is between two calls and the writer does not record, so a
  \<open>stop\<close> has returned): \<open>thread\<close> and \<open>writer\<close> are \<open>None\<close>, the queue is empty and
  the consumer has left its loop. The further \<open>stop\<close> goes from its first piece to its
  last (no sentinel, no \<open>join\<close>, no release), changes no field, and prints the report
  once more.

  Draining (the first \<open>stop\<close> stands at its \<open>put\<close> or at its \<open>join\<close>, where an
  interrupt abandons it with \<open>self.thread\<close> still set): the further \<open>stop\<close> is not
  without effect. It goes to \<open>put\<close> again and enqueues a sentinel as soon as the queue
  is not full, a second one if the first call had enqueued its own. It still returns:
  from every configuration that it reaches, the calling thread and the consumer running
  in turn end the call. When it has returned, the file holds the frames that were in
  the file, in the hands of the thread or in the queue, the consumer has left its loop,
  \<open>thread\<close> and \<open>writer\<close> are \<open>None\<close>, one report has been printed, and the queue holds
  the second sentinel, if there was one, for ever.
\<close>

theorem stop_again:
  assumes "list_all (\<lambda>x. \<not> is_Start x) rest"
    and "c = exec getsize sch (Ready, rest, active fname N art)"
    and "c_again = exec getsize sch_again (Ready, [Stop], st_of c)"
  shows "(pc_of c = Ready \<and> \<not> is_recording (st_of c) \<longrightarrow>
            thread (st_of c) = None \<and> writer (st_of c) = None \<and> queue (st_of c) = [] \<and>
            threads (st_of c) = [Exited] \<and>
            exec getsize [Main] (Ready, Stop # cs, st_of c) = (StopFinish, cs, st_of c) \<and>
            exec getsize [Main, Main] (Ready, Stop # cs, st_of c)
              = (Ready, cs,
                 (st_of c)\<lparr>reports := reports (st_of c) @
                   [(filename (st_of c), size_mb getsize (st_of c), dropped_frames (st_of c))]\<rparr>)) \<and>
         (pc_of c = StopPut \<or> pc_of c = StopJoin \<longrightarrow>
            thread (st_of c) = Some 0 \<and>
            exec getsize [Main] (Ready, Stop # cs, st_of c) = (StopPut, cs, st_of c) \<and>
            main_step getsize (StopPut, cs, st_of c)
              = (if full (st_of c) then None
                 else Some (StopJoin, cs, (st_of c)\<lparr>queue := queue (st_of c) @ [None]\<rparr>)) \<and>
            finished (exec getsize
              (concat (replicate (work (Ready, [Stop], st_of c)) [Main, Consumer 0])) c_again) \<and>
            (finished c_again \<longrightarrow>
               written (st_of c_again) = accepted (st_of c) \<and>
               threads (st_of c_again) = [Exited] \<and> thread (st_of c_again) = None \<and>
               writer (st_of c_again) = None \<and>
               queue (st_of c_again) = (if pc_of c = StopJoin then [None] else []) \<and>
               reports (st_of c_again) = reports (st_of c) @
                 [(filename (st_of c), size_mb getsize (st_of c_again), dropped_frames (st_of c))]))"
proof -
  have s: "sinv (submitted rest) c"
    unfolding assms(2) using assms(1) by (intro sinv_exec sinv_active)
  obtain p ds st where c: "c = (p, ds, st)"
    by (cases c) auto
  from s c obtain t where t: "threads st = [t]" "phase p st t"
    using sinvE by blast
  have closed: "thread st = None \<and> writer st = None \<and> queue st = [] \<and>
            threads st = [Exited] \<and>
            exec getsize [Main] (Ready, Stop # cs, st) = (StopFinish, cs, st) \<and>
            exec getsize [Main, Main] (Ready, Stop # cs, st)
              = (Ready, cs,
                 st\<lparr>reports := reports st @ [(filename st, size_mb getsize st, dropped_frames st)]\<rparr>)"
    if "p = Ready" "\<not> is_recording st"
  proof -
    from that t have cl: "thread st = None" "writer st = None" "t = Exited" "queue st = []"
      by (simp_all add: phase_def)
    have "st\<lparr>is_recording := False\<rparr> = st"
      using that(2) by simp
    with cl t(1) show ?thesis
      by (simp add: stop_begin_def stop_finish_eq)
  qed
  have draining: "thread st = Some 0 \<and>
            exec getsize [Main] (Ready, Stop # cs, st) = (StopPut, cs, st) \<and>
            main_step getsize (StopPut, cs, st)
              = (if full st then None else Some (StopJoin, cs, st\<lparr>queue := queue st @ [None]\<rparr>)) \<and>
            finished (exec getsize
              (concat (replicate (work (Ready, [Stop], st)) [Main, Consumer 0])) c_again) \<and>
            (finished c_again \<longrightarrow>
               written (st_of c_again) = accepted st \<and>
               threads (st_of c_again) = [Exited] \<and> thread (st_of c_again) = None \<and>
               writer (st_of c_again) = None \<and>
               queue (st_of c_again) = (if p = StopJoin then [None] else []) \<and>
               reports (st_of c_again) = reports st @
                 [(filename st, size_mb getsize (st_of c_again), dropped_frames st)])"
    if d: "p = StopPut \<or> p = StopJoin"
  proof -
    let ?m = "if pc_of c = StopJoin then 1 else 0 :: nat"
    from d t(2) have th: "thread st = Some 0" and nr: "\<not> is_recording st"
      by (auto simp: phase_def)
    have same: "st\<lparr>is_recording := False\<rparr> = st"
      using nr by simp
    from d c have "pc_of c = StopPut \<or> pc_of c = StopJoin"
      by (simp add: cfg_defs)
    from rinv_initial [OF s this, of getsize] c
    have r0: "rinv getsize ?m st (Ready, [Stop], st)"
      by (simp add: cfg_defs)
    then have r2: "rinv getsize ?m st c_again"
      unfolding assms(3) using c by (simp add: cfg_defs rinv_exec)
    have "work c_again \<le> work (Ready, [Stop], st)"
      unfolding assms(3) using c work_exec [of getsize sch_again "(Ready, [Stop], st)"]
      by (simp add: cfg_defs)
    with r2 have fin: "finished (exec getsize
        (concat (replicate (work (Ready, [Stop], st)) [Main, Consumer 0])) c_again)"
      by (intro round_robin_generic [where P = "rinv getsize ?m st"])
         (auto intro: rinv_step dest: rinv_enabled [where m = ?m])
    have "replicate ?m None = (if p = StopJoin then [None] else [] :: 'a option list)"
      using c by (simp add: cfg_defs)
    with rinv_finished [OF r2] have end2: "finished c_again \<longrightarrow>
               written (st_of c_again) = accepted st \<and>
               threads (st_of c_again) = [Exited] \<and> thread (st_of c_again) = None \<and>
               writer (st_of c_again) = None \<and>
               queue (st_of c_again) = (if p = StopJoin then [None] else []) \<and>
               reports (st_of c_again) = reports st @
                 [(filename st, size_mb getsize (st_of c_again), dropped_frames st)]"
      by simp
    from th same fin end2 show ?thesis
      by (simp add: stop_begin_def stop_put_def)
  qed
  have sc: "st_of c = st" "pc_of c = p"
    using c by (simp_all add: cfg_defs)
  from closed draining show ?thesis
    unfolding sc by blast
qed

text \<open>
  \<open>stop\<close> called twice prints two reports, \<open>stop\<close> called once prints one. And a
  \<open>stop\<close> invoked while the first stands at its \<open>join\<close>, with one frame and the
  sentinel in the queue, enqueues a second sentinel and stands at \<open>join\<close> itself.
\<close>

theorem stop_again_counterexample:
  "reports (st_of (exec length [Main, Main, Consumer 0, Consumer 0, Main, Main, Main, Main]
      (Ready, [Stop, Stop], active ''cam.mp4'' 128 None :: nat state)))
     = [(''cam.mp4'', 0, 0), (''cam.mp4'', 0, 0)] \<and>
   reports (st_of (exec length [Main, Main, Consumer 0, Consumer 0, Main, Main, Main, Main]
      (Ready, [Stop], active ''cam.mp4'' 128 None :: nat state)))
     = [(''cam.mp4'', 0, 0)] \<and>
   pc_of (exec length [Main, Main, Main]
      (Ready, [Write (1::nat), Stop], active ''cam.mp4'' 128 None)) = StopJoin \<and>
   queue (st_of (exec length [Main, Main, Main]
      (Ready, [Write (1::nat), Stop], active ''cam.mp4'' 128 None))) = [Some 1, None] \<and>
   exec length [Main, Main] (Ready, [Stop], st_of (exec length [Main, Main, Main]
      (Ready, [Write (1::nat), Stop], active ''cam.mp4'' 128 None)))
     = (StopJoin, [], (st_of (exec length [Main, Main, Main]
          (Ready, [Write (1::nat), Stop], active ''cam.mp4'' 128 None)))
          \<lparr>queue := [Some 1, None, None]\<rparr>)"
  by (simp add: op_defs cfg_defs)

text \<open>
  The same draining writer: the second \<open>stop\<close> returns, the frame is in the file and
  the second sentinel stays in the queue.
\<close>

theorem stop_again_witness:
  "list_all (\<lambda>x. \<not> is_Start x) [Write (1::nat), Stop] \<and>
   pc_of (exec length [Main, Main, Main]
      (Ready, [Write (1::nat), Stop], active ''cam.mp4'' 128 None)) = StopJoin \<and>
   finished (exec length [Main, Main, Consumer 0, Consumer 0, Consumer 0, Consumer 0, Main, Main]
      (Ready, [Stop], st_of (exec length [Main, Main, Main]
         (Ready, [Write (1::nat), Stop], active ''cam.mp4'' 128 None)))) \<and>
   written (st_of (exec length
      [Main, Main, Consumer 0, Consumer 0, Consumer 0, Consumer 0, Main, Main]
      (Ready, [Stop], st_of (exec length [Main, Main, Main]
         (Ready, [Write (1::nat), Stop], active ''cam.mp4'' 128 None))))) = [1] \<and>
   queue (st_of (exec length
      [Main, Main, Consumer 0, Consumer 0, Consumer 0, Consumer 0, Main, Main]
      (Ready, [Stop], st_of (exec length [Main, Main, Main]
         (Ready, [Write (1::nat), Stop], active ''cam.mp4'' 128 None))))) = [None]"
  using stop_again [where rest = "[Write (1::nat), Stop]" and getsize = length
      and sch = "[Main, Main, Main]" and fname = "''cam.mp4''" and N = 128 and art = None
      and sch_again = "[Main, Main, Consumer 0, Consumer 0, Consumer 0, Consumer 0, Main, Main]"
      and cs = "[]", OF _ refl refl]
  by (simp add: op_defs cfg_defs finished_def written_def accepted_def)

text \<open>
  Claim C10 (stop without start). On a writer that was never started, or whose \<open>start\<close>
  failed, \<open>thread\<close> and \<open>writer\<close> are \<open>None\<close> and no thread exists. \<open>stop\<close> goes
  from its first piece to its last and returns after two steps of the calling thread,
  without waiting; under every schedule it never stands at \<open>put\<close> or \<open>join\<close>, the
  queue stays empty (no sentinel), no writer is released and the file is not touched. It
  prints one report, with the counter 0, and with size 0 when no file exists at the path.
\<close>

theorem stop_without_start:
  assumes "s = init fname N art \<or> (oc \<noteq> Opened \<and> s = snd (start oc (init fname N art)))"
  shows "thread s = None \<and> writer s = None \<and> threads s = [] \<and>
         (artifact s = art \<or> artifact s = left_by oc art) \<and>
         exec getsize [Main] (Ready, [Stop], s) = (StopFinish, [], s) \<and>
         exec getsize [Main, Main] (Ready, [Stop], s)
           = (Ready, [], s\<lparr>reports := [(fname, size_mb getsize s, 0)]\<rparr>) \<and>
         (artifact s = None \<longrightarrow> size_mb getsize s = 0) \<and>
         pc_of (exec getsize sch (Ready, [Stop], s)) \<noteq> StopPut \<and>
         pc_of (exec getsize sch (Ready, [Stop], s)) \<noteq> StopJoin \<and>
         queue (st_of (exec getsize sch (Ready, [Stop], s))) = [] \<and>
         writer (st_of (exec getsize sch (Ready, [Stop], s))) = None \<and>
         artifact (st_of (exec getsize sch (Ready, [Stop], s))) = artifact s"
proof -
  from assms start_failed_init [of oc fname N art]
  have "s = init fname N art \<or> s = init fname N (left_by oc art)"
    by auto
  then obtain art' where s: "s = init fname N art'"
    and art': "art' = art \<or> art' = left_by oc art"
    by auto
  let ?P = "\<lambda>c. (pc_of c = Ready \<or> pc_of c = StopFinish) \<and> queue (st_of c) = [] \<and>
     thread (st_of c) = None \<and> threads (st_of c) = [] \<and> writer (st_of c) = None \<and>
     artifact (st_of c) = art' \<and> (todo_of c = [Stop] \<or> todo_of c = [])"
  have "?P (exec getsize sch (Ready, [Stop], s))"
  proof (rule exec_invariant [where P = ?P])
    show "?P (Ready, [Stop], s)"
      by (simp add: cfg_defs s init_def)
  next
    fix a c c'
    assume P: "?P c" and st: "step getsize a c = Some c'"
    obtain p cs u where c: "c = (p, cs, u)"
      by (cases c) auto
    show "?P c'"
    proof (cases a)
      case Main
      with P st c show ?thesis
        by (auto simp: cfg_defs stop_begin_def stop_finish_eq)
    next
      case (Consumer i)
      with P st c show ?thesis
        by (auto simp: cfg_defs process_queue_step_def split: option.splits)
    qed
  qed
  moreover have "s\<lparr>is_recording := False\<rparr> = s"
    by (simp add: s init_def)
  moreover have "thread s = None" "writer s = None" "threads s = []" "reports s = []"
    "filename s = fname" "dropped_frames s = 0" "artifact s = art'"
    by (simp_all add: s init_def)
  ultimately show ?thesis
    using art' by (auto simp: stop_begin_def stop_finish_eq size_mb_def)
qed

text \<open>
  After a \<open>start\<close> whose writer is not opened, with no file at the path.
\<close>

theorem stop_without_start_witness:
  "(snd (start (NotOpened Untouched) (init ''cam.mp4'' 128 None)) :: nat state)
     = init ''cam.mp4'' 128 None \<and>
   exec length [Main, Main]
     (Ready, [Stop], snd (start (NotOpened Untouched) (init ''cam.mp4'' 128 None)) :: nat state)
     = (Ready, [], (init ''cam.mp4'' 128 None)\<lparr>reports := [(''cam.mp4'', 0, 0)]\<rparr>)"
  using stop_without_start [of "snd (start (NotOpened Untouched) (init ''cam.mp4'' 128 None)) :: nat state"
      "''cam.mp4''" 128 None "NotOpened Untouched" length "[]"]
  by (simp add: op_defs attempt_def)

subsection \<open>Ordering\<close>

lemma subseq_prefix_append: "subseq xs (xs @ ys)"
  by (induction xs) simp_all

lemma written_pipeline: "subseq (written s) (pipeline cs s)"
  by (simp add: pipeline_def subseq_prefix_append)

text \<open>
  Claim C2 (FIFO ordering). In a recording session (the writer started with success and
  not started again), whatever the interleaving of the calling thread and the consumer,
  the frames in the file are at every moment a subsequence of the frames submitted
  before \<open>stop\<close>, in the order of submission: frames may be missing, none are
  reordered.
\<close>

theorem fifo_ordering:
  assumes "list_all (\<lambda>x. \<not> is_Start x) rest"
  shows "subseq (written (st_of (exec getsize sch (Ready, rest, active fname N art))))
           (submitted rest)"
proof -
  let ?c = "exec getsize sch (Ready, rest, active fname N art)"
  have "sinv (submitted rest) ?c"
    using assms by (simp add: sinv_active sinv_exec)
  then have "subseq (pipeline (todo_of ?c) (st_of ?c)) (submitted rest)"
    by (simp add: sinv_def)
  with written_pipeline [of "st_of ?c" "todo_of ?c"] show ?thesis
    using subseq_order.order_trans by blast
qed

theorem fifo_ordering_witness:
  "list_all (\<lambda>x. \<not> is_Start x) [Write (1::nat), Write 2, Write 3, Stop] \<and>
   written (st_of (exec length
       [Main, Main, Main, Consumer 0, Consumer 0, Main, Consumer 0, Main, Consumer 0,
        Consumer 0, Consumer 0, Main, Main]
       (Ready, [Write 1, Write 2, Write 3, Stop], active ''cam.mp4'' 2 None))) = [1, 2] \<and>
   subseq [1, 2] (submitted [Write (1::nat), Write 2, Write 3, Stop])"
  using fifo_ordering [of "[Write (1::nat), Write 2, Write 3, Stop]" length
      "[Main, Main, Main, Consumer 0, Consumer 0, Main, Consumer 0, Main, Consumer 0,
        Consumer 0, Consumer 0, Main, Main]" "''cam.mp4''" 2 None]
  by (simp add: op_defs cfg_defs written_def)

subsection \<open>The contract of write\<close>

text \<open>
  Claim C5 (submit contract). When the writer is not recording, \<open>write\<close> changes
  nothing: no item is enqueued, the counter keeps its value. When it records, the frame
  is appended to the queue unless the queue is full, and the counter of dropped frames
  grows by one exactly when the queue is full. In every state the call is one step of
  the calling thread that is always enabled: it never waits.
\<close>

theorem submit_contract:
  "(\<not> is_recording s \<longrightarrow> write_frame f s = s) \<and>
   (is_recording s \<longrightarrow>
      queue (write_frame f s) = (if full s then queue s else queue s @ [Some f]) \<and>
      dropped_frames (write_frame f s) =
        (if full s then dropped_frames s + 1 else dropped_frames s)) \<and>
   main_step getsize (Ready, Write f # cs, s) = Some (Ready, cs, write_frame f s)"
  by (simp add: write_frame_def)

theorem submit_contract_witness:
  "\<not> is_recording (init ''a.mp4'' 2 None :: nat state) \<and>
   write_frame 5 (init ''a.mp4'' 2 None :: nat state) = init ''a.mp4'' 2 None \<and>
   is_recording (active ''a.mp4'' 2 None :: nat state) \<and>
   queue (write_frame 5 (active ''a.mp4'' 2 None :: nat state)) = [Some 5] \<and>
   dropped_frames
     (write_frame 7 (write_frame 6 (write_frame 5 (active ''a.mp4'' 2 None :: nat state)))) = 1"
  using submit_contract [of "init ''a.mp4'' 2 None :: nat state" 5]
    submit_contract [of "active ''a.mp4'' 2 None :: nat state" 5]
    submit_contract [of "write_frame 6 (write_frame 5 (active ''a.mp4'' 2 None :: nat state))" 7]
  by (simp add: op_defs)

end
